theory Spec2Isabelle
  imports Main
begin

section \<open>Data model\<close>

text \<open>
  Atoms are identified by natural numbers. A Python \<^verbatim>\<open>dict\<close> that the code iterates
  is an association list in insertion order; a Python \<^verbatim>\<open>set\<close> that the code iterates
  is a duplicate-free list whose order stands for the iteration order of the set
  (\<^verbatim>\<open>add\<close> appends a new element at the end). The per-atom attribute dictionaries
  (\<^verbatim>\<open>_atoms\<close>, \<^verbatim>\<open>_charges\<close>, \<^verbatim>\<open>_radicals\<close>, \<^verbatim>\<open>_hydrogens\<close>,
  \<^verbatim>\<open>_hybridizations\<close>) are only ever indexed by atoms of \<^verbatim>\<open>_bonds\<close>, which the
  container keeps as keys of all of them; they are functions of the atom.

  A bond is a shared object: \<^verbatim>\<open>bonds[n][m]\<close> and \<^verbatim>\<open>bonds[m][n]\<close> hold the same
  \<^verbatim>\<open>Bond\<close>. The adjacency therefore maps a neighbour to the address of the bond, and
  the field \<open>order\<close> is the store of the bond orders by address.
\<close>

type_synonym atom = nat
type_synonym skeleton = "(atom \<times> atom list) list"
type_synonym assignment = "(atom \<times> atom \<times> nat) list"

datatype error = InvalidAromaticRing | KeyError | IndexError | ValueError | StopIteration

record molecule =
  atomic_number :: "atom \<Rightarrow> nat"
  charges :: "atom \<Rightarrow> int"
  radicals :: "atom \<Rightarrow> bool"
  hydrogens :: "atom \<Rightarrow> nat option"
  hybridizations :: "atom \<Rightarrow> nat"
  bonds :: "(atom \<times> (atom \<times> nat) list) list"
  order :: "nat \<Rightarrow> nat"
  sssr :: "atom list list"

definition keys :: "('k \<times> 'v) list \<Rightarrow> 'k list" where
  "keys d = map fst d"

text \<open>\<^verbatim>\<open>s.add(x)\<close> on a set.\<close>

definition set_add :: "'a \<Rightarrow> 'a list \<Rightarrow> 'a list" where
  "set_add x xs = (if x \<in> set xs then xs else xs @ [x])"

text \<open>\<^verbatim>\<open>rings[n].add(m)\<close> on a \<^verbatim>\<open>defaultdict(set)\<close>: a missing key is created.\<close>

fun dd_add :: "atom \<Rightarrow> atom \<Rightarrow> skeleton \<Rightarrow> skeleton" where
  "dd_add n m [] = [(n, [m])]"
| "dd_add n m ((k, v) # d) =
     (if k = n then (k, set_add m v) # d else (k, v) # dd_add n m d)"

text \<open>Reading \<^verbatim>\<open>rings[n]\<close> for a key that is present (the empty set otherwise).\<close>

definition dd_get :: "('k \<times> 'v list) list \<Rightarrow> 'k \<Rightarrow> 'v list" where
  "dd_get d n = (case map_of d n of None \<Rightarrow> [] | Some v \<Rightarrow> v)"

section \<open>The valence classifier: \<^verbatim>\<open>__prepare_rings\<close>\<close>

text \<open>The first loop: one bond seen from atom \<open>n\<close>.\<close>

definition scan_bond ::
  "(nat \<Rightarrow> nat) \<Rightarrow> atom \<Rightarrow> atom \<times> nat \<Rightarrow>
   skeleton \<times> atom list \<times> atom list \<Rightarrow> skeleton \<times> atom list \<times> atom list" where
  "scan_bond ord n mb = (\<lambda>(rings, double_bonded, triple_bonded).
     let bo = ord (snd mb) in
     if bo = 4 then (dd_add n (fst mb) rings, double_bonded, triple_bonded)
     else if bo = 2 then (rings, set_add n double_bonded, triple_bonded)
     else if bo = 3 then (rings, double_bonded, set_add n triple_bonded)
     else (rings, double_bonded, triple_bonded))"

definition scan_bonds :: "molecule \<Rightarrow> skeleton \<times> atom list \<times> atom list" where
  "scan_bonds mol =
     fold (\<lambda>(n, m_bond). fold (scan_bond (order mol) n) m_bond) (bonds mol) ([], [], [])"

text \<open>
  The ring-closing loop over \<^verbatim>\<open>self.sssr\<close>: the pair \<^verbatim>\<open>n, *_, m = r\<close> first, then
  \<^verbatim>\<open>zip(r, r[1:])\<close>. The unpacking needs two elements at least.
\<close>

definition ring_pairs :: "atom list \<Rightarrow> (atom \<times> atom) list" where
  "ring_pairs r = (hd r, last r) # zip r (tl r)"

definition add_ring_edge :: "atom \<times> atom \<Rightarrow> skeleton \<Rightarrow> skeleton" where
  "add_ring_edge = (\<lambda>(n, m) rings.
     if n \<in> set (dd_get rings m) then rings else dd_add n m (dd_add m n rings))"

fun sssr_rings :: "atom list list \<Rightarrow> skeleton \<Rightarrow> error + skeleton" where
  "sssr_rings [] rings = Inr rings"
| "sssr_rings (r # rs) rings =
     (if list_all (\<lambda>a. a \<in> set (keys rings)) r
      then (if length r < 2 then Inl ValueError
            else sssr_rings rs (fold add_ring_edge (ring_pairs r) rings))
      else sssr_rings rs rings)"

text \<open>
  The body of the loop \<^verbatim>\<open>for n in rings\<close>: the element-indexed decision table. The
  state is the pair of the sets \<^verbatim>\<open>pyroles\<close> and \<^verbatim>\<open>double_bonded\<close>; \<open>ab\<close> is
  \<^verbatim>\<open>len(bonds[n])\<close>.
\<close>

definition classify ::
  "molecule \<Rightarrow> atom \<Rightarrow> atom list \<times> atom list \<Rightarrow> error + (atom list \<times> atom list)" where
  "classify mol n = (\<lambda>(pyroles, double_bonded).
     let an = atomic_number mol n; ac = charges mol n;
         ab = length (dd_get (bonds mol) n); rad = radicals mol n in
     if an = 6 then
       (if ac = 0 then
          (if ab \<noteq> 2 \<and> ab \<noteq> 3 then Inl InvalidAromaticRing else Inr (pyroles, double_bonded))
        else if ac = - 1 \<or> ac = 1 then
          (if rad then
             (if ab = 2 then Inr (pyroles, set_add n double_bonded) else Inl InvalidAromaticRing)
           else if ab = 3 then Inr (pyroles, set_add n double_bonded)
           else if ab = 2 then Inr (set_add n pyroles, double_bonded)
           else Inl InvalidAromaticRing)
        else Inl InvalidAromaticRing)
     else if an = 7 \<or> an = 15 then
       (if ac = 0 then
          (if rad then
             (if ab \<noteq> 2 then Inl InvalidAromaticRing else Inr (pyroles, set_add n double_bonded))
           else if ab = 3 then
             (if an = 7 then Inr (pyroles, set_add n double_bonded)
              else Inr (set_add n pyroles, double_bonded))
           else if ab = 2 then
             (case hydrogens mol n of
                None \<Rightarrow> Inr (set_add n pyroles, double_bonded)
              | Some ah \<Rightarrow>
                  if ah = 0 then Inr (set_add n pyroles, double_bonded)
                  else if ah = 1 then Inr (pyroles, set_add n double_bonded)
                  else Inl InvalidAromaticRing)
           else if ab \<noteq> 4 \<or> an \<noteq> 15 then Inl InvalidAromaticRing
           else Inr (pyroles, double_bonded))
        else if ac = - 1 then
          (if ab \<noteq> 2 \<or> rad then Inl InvalidAromaticRing
           else Inr (pyroles, set_add n double_bonded))
        else if ac \<noteq> 1 then Inl InvalidAromaticRing
        else if rad then
          (if ab \<noteq> 2 then Inl InvalidAromaticRing else Inr (pyroles, double_bonded))
        else if ab = 2 then Inr (set_add n pyroles, double_bonded)
        else if ab \<noteq> 3 then Inl InvalidAromaticRing
        else Inr (pyroles, double_bonded))
     else if an = 8 then
       (if ab = 2 \<and> (ac = 0 \<and> \<not> rad \<or> ac = 1 \<and> rad)
        then Inr (pyroles, set_add n double_bonded)
        else Inl InvalidAromaticRing)
     else if an = 16 \<or> an = 34 \<or> an = 52 then
       (if n \<notin> set double_bonded then
          (if ab = 2 then
             (case (if rad
                    then (if ac = 1 then Inr (set_add n double_bonded)
                          else Inl InvalidAromaticRing)
                    else Inr double_bonded) of
                Inl e \<Rightarrow> Inl e
              | Inr double_bonded1 \<Rightarrow>
                  if ac = 0 then Inr (pyroles, set_add n double_bonded1)
                  else if ac \<noteq> 1 then Inl InvalidAromaticRing
                  else Inr (pyroles, double_bonded1))
           else Inl InvalidAromaticRing)
        else Inr (pyroles, double_bonded))
     else if an = 5 then
       (if ac = 0 then
          (if ab = 2 then
             (if rad then Inr (pyroles, set_add n double_bonded)
              else Inr (set_add n pyroles, double_bonded))
           else if \<not> rad then Inr (pyroles, set_add n double_bonded)
           else Inl InvalidAromaticRing)
        else if ac = 1 then
          (if ab = 2 \<and> \<not> rad then Inr (pyroles, set_add n double_bonded)
           else Inl InvalidAromaticRing)
        else if ac = - 1 then
          (if ab = 2 then
             (if \<not> rad then Inr (set_add n pyroles, double_bonded)
              else Inr (pyroles, double_bonded))
           else if rad then Inr (pyroles, set_add n double_bonded)
           else Inr (set_add n pyroles, double_bonded))
        else Inl InvalidAromaticRing)
     else Inl InvalidAromaticRing)"

fun classify_all ::
  "molecule \<Rightarrow> atom list \<Rightarrow> atom list \<times> atom list \<Rightarrow> error + (atom list \<times> atom list)" where
  "classify_all mol [] st = Inr st"
| "classify_all mol (n # ns) st =
     (case classify mol n st of Inl e \<Rightarrow> Inl e | Inr st' \<Rightarrow> classify_all mol ns st')"

definition quinone_element :: "nat \<Rightarrow> bool" where
  "quinone_element an = (an = 6 \<or> an = 15 \<or> an = 16 \<or> an = 34 \<or> an = 52)"

definition prepare_rings ::
  "molecule \<Rightarrow> error + (skeleton \<times> atom list \<times> atom list)" where
  "prepare_rings mol =
     (case scan_bonds mol of (rings0, double_bonded0, triple_bonded) \<Rightarrow>
        if rings0 = [] then Inr ([], [], [])
        else if list_ex (\<lambda>n. n \<in> set (keys rings0)) triple_bonded then Inl InvalidAromaticRing
        else
          (case sssr_rings (sssr mol) rings0 of
             Inl e \<Rightarrow> Inl e
           | Inr rings \<Rightarrow>
               if list_ex (\<lambda>ms. length ms \<noteq> 2 \<and> length ms \<noteq> 3) (map snd rings)
               then Inl InvalidAromaticRing
               else
                 let double_bonded = filter (\<lambda>n. n \<in> set (keys rings)) double_bonded0 in
                 if list_ex (\<lambda>n. length (dd_get rings n) \<noteq> 2) double_bonded
                 then Inl InvalidAromaticRing
                 else if list_ex (\<lambda>n. \<not> quinone_element (atomic_number mol n) \<or> charges mol n \<noteq> 0)
                           double_bonded
                 then Inl InvalidAromaticRing
                 else
                   (case classify_all mol (keys rings) ([], double_bonded) of
                      Inl e \<Rightarrow> Inl e
                    | Inr (pyroles, double_bonded') \<Rightarrow> Inr (rings, pyroles, double_bonded'))))"

section \<open>The component splitter of \<^verbatim>\<open>__kekule_full\<close>\<close>

text \<open>
  The inner \<^verbatim>\<open>for n in rings[current]\<close> of the breadth-first traversal: a neighbour
  not yet in the component is queued and entered with its neighbour set.
\<close>

definition bfs_visit :: "skeleton \<Rightarrow> atom \<Rightarrow> skeleton \<times> atom list \<Rightarrow> skeleton \<times> atom list" where
  "bfs_visit rings n = (\<lambda>(component, queue).
     if n \<in> set (keys component) then (component, queue)
     else (component @ [(n, dd_get rings n)], queue @ [n]))"

definition universe :: "skeleton \<Rightarrow> atom set" where
  "universe rings = set (concat (map snd rings))"

function bfs :: "skeleton \<Rightarrow> skeleton \<Rightarrow> atom list \<Rightarrow> skeleton" where
  "bfs rings component [] = component"
| "bfs rings component (current # queue) =
     (case fold (bfs_visit rings) (dd_get rings current) (component, queue) of
        (component', queue') \<Rightarrow> bfs rings component' queue')"
  by pat_completeness auto

lemma dd_get_universe: "set (dd_get rings c) \<subseteq> universe rings"
proof (cases "map_of rings c")
  case None
  then show ?thesis by (simp add: dd_get_def)
next
  case (Some v)
  then have "(c, v) \<in> set rings" by (rule map_of_SomeD)
  then have "set v \<subseteq> universe rings" by (force simp: universe_def)
  with Some show ?thesis by (simp add: dd_get_def)
qed

lemma bfs_visit_measure:
  "fold (bfs_visit rings) ms (c, q) = (c', q') \<Longrightarrow> set ms \<subseteq> universe rings \<Longrightarrow>
   finite (universe rings) \<Longrightarrow>
   2 * card (universe rings - set (keys c')) + length q'
     \<le> 2 * card (universe rings - set (keys c)) + length q"
proof (induction ms arbitrary: c q)
  case Nil
  then show ?case by simp
next
  case (Cons n ms)
  show ?case
  proof (cases "n \<in> set (keys c)")
    case True
    then have "bfs_visit rings n (c, q) = (c, q)" by (simp add: bfs_visit_def)
    with Cons show ?thesis by simp
  next
    case False
    let ?c1 = "c @ [(n, dd_get rings n)]"
    have st: "bfs_visit rings n (c, q) = (?c1, q @ [n])"
      using False by (simp add: bfs_visit_def)
    have f: "fold (bfs_visit rings) ms (?c1, q @ [n]) = (c', q')"
      using Cons.prems(1) by (simp add: st)
    have ih: "2 * card (universe rings - set (keys c')) + length q'
        \<le> 2 * card (universe rings - set (keys ?c1)) + length (q @ [n])"
      using Cons.IH[OF f] Cons.prems by simp
    have nU: "n \<in> universe rings - set (keys c)" using Cons.prems False by simp
    have "universe rings - set (keys ?c1) = (universe rings - set (keys c)) - {n}"
      by (auto simp: keys_def)
    then have "card (universe rings - set (keys ?c1)) = card (universe rings - set (keys c)) - 1"
      using nU Cons.prems(3) by simp
    moreover have "card (universe rings - set (keys c)) > 0"
      using nU Cons.prems(3) by (metis card_gt_0_iff empty_iff finite_Diff)
    ultimately show ?thesis using ih by simp
  qed
qed

termination bfs
proof (relation "measure (\<lambda>(rings, c, q). 2 * card (universe rings - set (keys c)) + length q)",
    goal_cases)
  case 1
  show ?case by simp
next
  case 2
  have fin: "finite (universe rings)" for rings by (simp add: universe_def)
  from 2 bfs_visit_measure[OF _ dd_get_universe fin] show ?case
    by (metis (mono_tags, lifting) add_Suc_right in_measure le_imp_less_Suc length_Cons
        old.prod.case)
qed

text \<open>
  The outer \<^verbatim>\<open>while atoms\<close>: \<^verbatim>\<open>atoms.pop()\<close> takes the first atom of the set,
  \<^verbatim>\<open>atoms.difference_update(component)\<close> drops the atoms of the component found.
\<close>

fun components_loop :: "skeleton \<Rightarrow> atom list \<Rightarrow> skeleton list" where
  "components_loop rings [] = []"
| "components_loop rings (start # atoms) =
     (let component = bfs rings [(start, dd_get rings start)] [start]
      in component # components_loop rings (filter (\<lambda>a. a \<notin> set (keys component)) atoms))"

section \<open>The kekulization search: \<^verbatim>\<open>__kekule_component\<close>\<close>

text \<open>
  A work item is \<^verbatim>\<open>(atom, previous atom, bond order, rollback marker)\<close>. The stack of
  branches and every branch are lists used from their end in the source
  (\<^verbatim>\<open>stack[-1]\<close>, \<^verbatim>\<open>pop()\<close>, \<^verbatim>\<open>append\<close>); here the head of a list is that end: the
  head of \<open>stack\<close> is \<^verbatim>\<open>stack[-1]\<close>, the head of a branch is its last item, and
  \<^verbatim>\<open>insert(0, x)\<close> appends \<open>x\<close> at the tail. The path is in the order of the source.
  \<open>at_yield\<close> holds while the generator is suspended at its \<^verbatim>\<open>yield\<close>.
\<close>

type_synonym item = "atom \<times> atom \<times> nat \<times> nat option"

record component =
  c_rings :: skeleton
  c_double_bonded :: "atom list"
  c_pyroles :: "atom list"
  c_start :: atom
  c_size :: nat

record search =
  stack :: "item list list"
  path :: assignment
  hashed_path :: "atom set"
  nether_yielded :: bool
  at_yield :: bool

text \<open>
  \<^verbatim>\<open>del stack[-1]\<close>, then, if a branch is left, the path is cut at the marker of its last
  item (\<^verbatim>\<open>path[:None]\<close> is the whole path) and the visited set is rebuilt.
\<close>

definition backtrack :: "search \<Rightarrow> error + search" where
  "backtrack s =
     (case tl (stack s) of
        [] \<Rightarrow> Inr (s\<lparr>stack := []\<rparr>)
      | b # bs \<Rightarrow>
          (case b of
             [] \<Rightarrow> Inl IndexError
           | (_, _, _, marker) # _ \<Rightarrow>
               let p = (case marker of None \<Rightarrow> path s | Some k \<Rightarrow> take k (path s))
               in Inr (s\<lparr>stack := b # bs, path := p, hashed_path := set (map fst p)\<rparr>)))"

text \<open>The loop over \<^verbatim>\<open>rings[atom]\<close> that sorts the neighbours of the current atom.\<close>

definition sort_neighbour ::
  "atom \<Rightarrow> atom set \<Rightarrow> atom \<Rightarrow> atom \<Rightarrow> atom list \<times> atom list \<times> atom \<Rightarrow>
   atom list \<times> atom list \<times> atom" where
  "sort_neighbour start' hashed prev_atom next_atom = (\<lambda>(for_stack, closures, loop).
     if next_atom = prev_atom then (for_stack, closures, loop)
     else if next_atom = start' then (for_stack, closures, next_atom)
     else if next_atom \<in> hashed then (for_stack, closures @ [next_atom], loop)
     else (for_stack @ [next_atom], closures, loop))"

text \<open>
  \<^verbatim>\<open>stack[-1].remove(x)\<close> deletes the occurrence nearest to index 0, the last one of
  the list kept here.
\<close>

definition remove_item :: "item \<Rightarrow> item list \<Rightarrow> item list" where
  "remove_item x br = rev (remove1 x (rev br))"

text \<open>The closures of a double-bonded atom: each is written to the path as a single bond.\<close>

fun close_all ::
  "atom \<Rightarrow> atom list \<Rightarrow> item list \<times> assignment \<Rightarrow> error + (item list \<times> assignment)" where
  "close_all a [] st = Inr st"
| "close_all a (next_atom # cs) (br, p) =
     (if (a, next_atom, 1, None) \<in> set br
      then close_all a cs (remove_item (a, next_atom, 1, None) br, p @ [(next_atom, a, 1)])
      else Inl ValueError)"

text \<open>
  The block \<^verbatim>\<open>if loop:\<close>. The result is the branch with the closing item inserted at
  index 0 and the bond to grow with, or \<open>None\<close> when the branch is abandoned.
\<close>

definition close_loop ::
  "component \<Rightarrow> item list \<Rightarrow> atom \<Rightarrow> nat \<Rightarrow> atom list \<Rightarrow> atom \<Rightarrow> (item list \<times> nat) option" where
  "close_loop K br a bond for_stack loop =
     (if bond = 2 then
        (if c_double_bonded K \<noteq> [] then Some (br @ [(loop, a, 1, None)], bond) else None)
      else if c_double_bonded K \<noteq> [] then
        (if for_stack \<noteq> [] \<or> a \<in> set (c_double_bonded K) \<or> a \<in> set (c_pyroles K)
         then Some (br @ [(loop, a, 1, None)], bond) else None)
      else Some (br @ [(loop, a, 2, None)], 2))"

text \<open>The chain \<^verbatim>\<open>if bond == 2 or atom in double_bonded: ... elif ...\<close> that grows the path.\<close>

definition grow ::
  "component \<Rightarrow> search \<Rightarrow> atom \<Rightarrow> nat \<Rightarrow> atom list \<Rightarrow> atom list \<Rightarrow> error + search" where
  "grow K s a bond for_stack closures =
     (case stack s of
        [] \<Rightarrow> Inl IndexError
      | br # rest \<Rightarrow>
          if bond = 2 \<or> a \<in> set (c_double_bonded K) then
            (case close_all a closures (br, path s) of
               Inl e \<Rightarrow> Inl e
             | Inr (br1, p1) \<Rightarrow>
                 Inr (s\<lparr>stack := (rev (map (\<lambda>next_atom. (next_atom, a, 1, None)) for_stack) @ br1) # rest,
                        path := p1\<rparr>))
          else if length for_stack = 1 then
            (let next_atom = hd for_stack in
             if next_atom \<in> set (c_double_bonded K) then
               (if a \<in> set (c_pyroles K)
                then Inr (s\<lparr>stack := ((next_atom, a, 1, None) # br) # rest\<rparr>)
                else backtrack s)
             else if a \<in> set (c_pyroles K) then
               Inr (s\<lparr>stack := ((next_atom, a, 2, None) # br)
                              # ((next_atom, a, 1, Some (length (path s))) # br) # rest\<rparr>)
             else
               (let br1 = (next_atom, a, 2, None) # br in
                case closures of
                  [] \<Rightarrow> Inr (s\<lparr>stack := br1 # rest\<rparr>)
                | c # _ \<Rightarrow>
                    if (a, c, 1, None) \<in> set br1
                    then Inr (s\<lparr>stack := remove_item (a, c, 1, None) br1 # rest,
                                path := path s @ [(c, a, 1)]\<rparr>)
                    else Inl ValueError))
          else if for_stack \<noteq> [] then
            (case for_stack of
               [next_atom1, next_atom2] \<Rightarrow>
                 if next_atom1 \<in> set (c_double_bonded K) then
                   (if next_atom2 \<in> set (c_double_bonded K) then backtrack s
                    else Inr (s\<lparr>stack := ((next_atom2, a, 2, None) # (next_atom1, a, 1, None) # br)
                                   # rest\<rparr>))
                 else if next_atom2 \<in> set (c_double_bonded K) then
                   Inr (s\<lparr>stack := ((next_atom1, a, 2, None) # (next_atom2, a, 1, None) # br)
                              # rest\<rparr>)
                 else
                   Inr (s\<lparr>stack := ((next_atom1, a, 2, None) # (next_atom2, a, 1, None) # br)
                              # ((next_atom2, a, 2, Some (length (path s)))
                                 # (next_atom1, a, 1, None) # br)
                              # rest\<rparr>)
             | _ \<Rightarrow> Inl ValueError)
          else if closures \<noteq> [] \<and> a \<notin> set (c_pyroles K) then backtrack s
          else Inr s)"

text \<open>
  One pass through the body of \<^verbatim>\<open>while stack\<close>, up to the \<^verbatim>\<open>yield\<close> when the path is
  complete. The test \<^verbatim>\<open>if loop\<close> is the truth value of an atom number: 0 is false.
\<close>

definition iteration :: "component \<Rightarrow> search \<Rightarrow> error + search" where
  "iteration K s =
     (case stack s of
        [] \<Rightarrow> Inl IndexError
      | br # rest \<Rightarrow>
          (case br of
             [] \<Rightarrow> Inl IndexError
           | (a, prev_atom, bond, _) # br' \<Rightarrow>
               let s1 = s\<lparr>stack := br' # rest, path := path s @ [(a, prev_atom, bond)],
                          hashed_path := insert a (hashed_path s)\<rparr> in
               if length (path s1) = c_size K then Inr (s1\<lparr>at_yield := True\<rparr>)
               else if a \<noteq> c_start K then
                 (case map_of (c_rings K) a of
                    None \<Rightarrow> Inl KeyError
                  | Some ms \<Rightarrow>
                      (case fold (sort_neighbour (c_start K) (hashed_path s1) prev_atom) ms ([], [], 0) of
                         (for_stack, closures, loop) \<Rightarrow>
                           if loop \<noteq> 0 then
                             (case close_loop K br' a bond for_stack loop of
                                None \<Rightarrow> backtrack s1
                              | Some (br1, bond1) \<Rightarrow>
                                  grow K (s1\<lparr>stack := br1 # rest\<rparr>) a bond1 for_stack closures)
                           else grow K s1 a bond for_stack closures))
               else Inr s1))"

text \<open>
  The code after the \<^verbatim>\<open>yield\<close>, run when the generator is resumed.
\<close>

definition resume :: "search \<Rightarrow> error + search" where
  "resume s = backtrack (s\<lparr>nether_yielded := False, at_yield := False\<rparr>)"

text \<open>
  \<^verbatim>\<open>next()\<close> on the generator: it runs to the next \<^verbatim>\<open>yield\<close> (the path and the
  suspended state), to the end of the loop (\<open>Inr None\<close>, or the error raised when no form
  was ever yielded), or to an exception. A search that never returns has no value.
\<close>

partial_function (option) kekule_next ::
  "component \<Rightarrow> search \<Rightarrow> (error + (assignment \<times> search) option) option" where
  "kekule_next K s =
     (if at_yield s then
        (case resume s of Inl e \<Rightarrow> Some (Inl e) | Inr s' \<Rightarrow> kekule_next K s')
      else if stack s = [] then
        Some (if nether_yielded s then Inl InvalidAromaticRing else Inr None)
      else
        (case iteration K s of
           Inl e \<Rightarrow> Some (Inl e)
         | Inr s' \<Rightarrow> if at_yield s' then Some (Inr (Some (path s', s'))) else kekule_next K s'))"

declare kekule_next.simps [code]

text \<open>The generator consumed to its end: every path it yields, in order.\<close>

partial_function (option) kekule_drain ::
  "component \<Rightarrow> search \<Rightarrow> assignment list \<Rightarrow> (error + assignment list) option" where
  "kekule_drain K s acc =
     (case kekule_next K s of
        None \<Rightarrow> None
      | Some (Inl e) \<Rightarrow> Some (Inl e)
      | Some (Inr None) \<Rightarrow> Some (Inr acc)
      | Some (Inr (Some (p, s'))) \<Rightarrow> kekule_drain K s' (acc @ [p]))"

declare kekule_drain.simps [code]

text \<open>
  The code of \<^verbatim>\<open>__kekule_component\<close> before its loop: the start atom, the first
  branches and the number of edges. \<^verbatim>\<open>next(iter(x))\<close> is the first element.
\<close>

definition first_branches :: "atom list \<Rightarrow> atom \<Rightarrow> nat \<Rightarrow> item list list" where
  "first_branches ms start' bond = rev (map (\<lambda>next_atom. [(next_atom, start', bond, Some 0)]) ms)"

definition kekule_component_init ::
  "skeleton \<Rightarrow> atom list \<Rightarrow> atom list \<Rightarrow> error + (component \<times> search)" where
  "kekule_component_init rings double_bonded pyroles =
     (let size' = sum_list (map (\<lambda>(n, ms). length ms) rings) div 2;
          make = (\<lambda>start' db st.
            Inr (\<lparr>c_rings = rings, c_double_bonded = db, c_pyroles = pyroles,
                   c_start = start', c_size = size'\<rparr>,
                 \<lparr>stack = st, path = [], hashed_path = {}, nether_yielded = True,
                   at_yield = False\<rparr>))
      in
      case double_bonded of
        start' # _ \<Rightarrow>
          (case map_of rings start' of
             None \<Rightarrow> Inl KeyError
           | Some [] \<Rightarrow> Inl StopIteration
           | Some (next_atom # _) \<Rightarrow> make start' double_bonded [[(next_atom, start', 1, Some 0)]])
      | [] \<Rightarrow>
          (case find (\<lambda>(n, ms). length ms = 2 \<and> n \<notin> set pyroles) rings of
             Some (start', _) \<Rightarrow> make start' [] (first_branches (dd_get rings start') start' 1)
           | None \<Rightarrow>
               (case find (\<lambda>(n, ms). length ms = 2) rings of
                  Some (start', _) \<Rightarrow> make start' [] (first_branches (dd_get rings start') start' 1)
                | None \<Rightarrow>
                    (case rings of
                       [] \<Rightarrow> Inl StopIteration
                     | (start', _) # _ \<Rightarrow>
                         make start' [start'] (first_branches (dd_get rings start') start' 2)))))"

section \<open>The enumerator: \<^verbatim>\<open>__kekule_full\<close>\<close>

text \<open>
  One generator per component, on \<^verbatim>\<open>double_bonded & c.keys()\<close> and
  \<^verbatim>\<open>pyroles & c.keys()\<close>. \<^verbatim>\<open>atoms = set(rings)\<close> is taken in the order of the keys.
\<close>

definition generators ::
  "skeleton \<Rightarrow> atom list \<Rightarrow> atom list \<Rightarrow> (skeleton \<times> atom list \<times> atom list) list" where
  "generators rings pyroles double_bonded =
     map (\<lambda>c. (c, filter (\<lambda>n. n \<in> set (keys c)) double_bonded,
                 filter (\<lambda>n. n \<in> set (keys c)) pyroles))
       (components_loop rings (keys rings))"

definition component_first ::
  "skeleton \<times> atom list \<times> atom list \<Rightarrow> (error + assignment option) option" where
  "component_first = (\<lambda>(c, double_bonded, pyroles).
     case kekule_component_init c double_bonded pyroles of
       Inl e \<Rightarrow> Some (Inl e)
     | Inr (K, s) \<Rightarrow>
         (case kekule_next K s of
            None \<Rightarrow> None
          | Some (Inl e) \<Rightarrow> Some (Inl e)
          | Some (Inr None) \<Rightarrow> Some (Inr None)
          | Some (Inr (Some (p, _))) \<Rightarrow> Some (Inr (Some p))))"

definition component_all ::
  "skeleton \<times> atom list \<times> atom list \<Rightarrow> (error + assignment list) option" where
  "component_all = (\<lambda>(c, double_bonded, pyroles).
     case kekule_component_init c double_bonded pyroles of
       Inl e \<Rightarrow> Some (Inl e)
     | Inr (K, s) \<Rightarrow> kekule_drain K s [])"

text \<open>
  Modelled from the spec: \<^verbatim>\<open>lazy_product\<close> of \<^verbatim>\<open>CGRtools._functions\<close> is not among
  the sources. The spec has the enumerator take the Cartesian product across the
  components, lazily: \<open>lazy_product\<close> is the product of the sequences consumed to their
  end (the product of no sequence is the one empty tuple), and \<open>first_product\<close> is its
  first element, for which one solution of every component is asked, in order.
\<close>

fun lazy_product :: "'a list list \<Rightarrow> 'a list list" where
  "lazy_product [] = [[]]"
| "lazy_product (xs # xss) = concat (map (\<lambda>x. map ((#) x) (lazy_product xss)) xs)"

fun first_product ::
  "(skeleton \<times> atom list \<times> atom list) list \<Rightarrow> (error + assignment list option) option" where
  "first_product [] = Some (Inr (Some []))"
| "first_product (g # gs) =
     (case component_first g of
        None \<Rightarrow> None
      | Some (Inl e) \<Rightarrow> Some (Inl e)
      | Some (Inr None) \<Rightarrow> Some (Inr None)
      | Some (Inr (Some p)) \<Rightarrow>
          (case first_product gs of
             None \<Rightarrow> None
           | Some (Inl e) \<Rightarrow> Some (Inl e)
           | Some (Inr None) \<Rightarrow> Some (Inr None)
           | Some (Inr (Some ps)) \<Rightarrow> Some (Inr (Some (p # ps)))))"

fun all_solutions ::
  "(skeleton \<times> atom list \<times> atom list) list \<Rightarrow> (error + assignment list list) option" where
  "all_solutions [] = Some (Inr [])"
| "all_solutions (g # gs) =
     (case component_all g of
        None \<Rightarrow> None
      | Some (Inl e) \<Rightarrow> Some (Inl e)
      | Some (Inr ps) \<Rightarrow>
          (case all_solutions gs of
             None \<Rightarrow> None
           | Some (Inl e) \<Rightarrow> Some (Inl e)
           | Some (Inr pss) \<Rightarrow> Some (Inr (ps # pss))))"

text \<open>
  \<^verbatim>\<open>next(self.__kekule_full(), None)\<close>: the first assignment of the generator,
  \<open>Inr None\<close> when it yields nothing.
\<close>

definition kekule_full_first :: "molecule \<Rightarrow> (error + assignment option) option" where
  "kekule_full_first mol =
     (case prepare_rings mol of
        Inl e \<Rightarrow> Some (Inl e)
      | Inr (rings, pyroles, double_bonded) \<Rightarrow>
          (case first_product (generators rings pyroles double_bonded) of
             None \<Rightarrow> None
           | Some (Inl e) \<Rightarrow> Some (Inl e)
           | Some (Inr None) \<Rightarrow> Some (Inr None)
           | Some (Inr (Some keks)) \<Rightarrow> Some (Inr (Some (concat keks)))))"

text \<open>The generator \<^verbatim>\<open>__kekule_full\<close> consumed to its end.\<close>

definition kekule_full :: "molecule \<Rightarrow> (error + assignment list) option" where
  "kekule_full mol =
     (case prepare_rings mol of
        Inl e \<Rightarrow> Some (Inl e)
      | Inr (rings, pyroles, double_bonded) \<Rightarrow>
          (case all_solutions (generators rings pyroles double_bonded) of
             None \<Rightarrow> None
           | Some (Inl e) \<Rightarrow> Some (Inl e)
           | Some (Inr sols) \<Rightarrow> Some (Inr (map concat (lazy_product sols)))))"

section \<open>The patcher and the entry points\<close>

text \<open>
  \<^verbatim>\<open>_calc_hybridization\<close> and \<^verbatim>\<open>_calc_implicit\<close> are not among the sources: they are
  the parameters \<open>ch\<close> and \<open>ci\<close>, which compute the mark and the hydrogen count of an
  atom from the molecule. The first loop of \<^verbatim>\<open>__kekule_patch\<close> writes the orders into
  the bond objects; a missing bond raises \<^verbatim>\<open>KeyError\<close> with the earlier writes done.
\<close>

fun patch_bonds ::
  "assignment \<Rightarrow> molecule \<times> atom list \<Rightarrow> error option \<times> molecule \<times> atom list" where
  "patch_bonds [] st = (None, st)"
| "patch_bonds ((n, m, b) # patch) (mol, atoms) =
     (case map_of (bonds mol) n of
        None \<Rightarrow> (Some KeyError, mol, atoms)
      | Some m_bond \<Rightarrow>
          (case map_of m_bond m of
             None \<Rightarrow> (Some KeyError, mol, atoms)
           | Some addr \<Rightarrow>
               patch_bonds patch
                 (mol\<lparr>order := (order mol)(addr := b)\<rparr>, set_add m (set_add n atoms))))"

definition recalc ::
  "(molecule \<Rightarrow> atom \<Rightarrow> nat) \<Rightarrow> (molecule \<Rightarrow> atom \<Rightarrow> nat option) \<Rightarrow> atom \<Rightarrow> molecule \<Rightarrow> molecule" where
  "recalc ch ci n mol =
     (let mol1 = mol\<lparr>hybridizations := (hybridizations mol)(n := ch mol n)\<rparr>
      in mol1\<lparr>hydrogens := (hydrogens mol1)(n := ci mol1 n)\<rparr>)"

definition kekule_patch ::
  "(molecule \<Rightarrow> atom \<Rightarrow> nat) \<Rightarrow> (molecule \<Rightarrow> atom \<Rightarrow> nat option) \<Rightarrow> assignment \<Rightarrow> molecule \<Rightarrow>
   error option \<times> molecule" where
  "kekule_patch ch ci patch mol =
     (case patch_bonds patch (mol, []) of
        (Some e, mol', _) \<Rightarrow> (Some e, mol')
      | (None, mol', atoms) \<Rightarrow> (None, fold (recalc ch ci) atoms mol'))"

text \<open>
  \<^verbatim>\<open>kekule\<close>: the result is the value returned or the exception raised, with the
  molecule as the call leaves it.
\<close>

definition kekule ::
  "(molecule \<Rightarrow> atom \<Rightarrow> nat) \<Rightarrow> (molecule \<Rightarrow> atom \<Rightarrow> nat option) \<Rightarrow> molecule \<Rightarrow>
   ((error + bool) \<times> molecule) option" where
  "kekule ch ci mol =
     (case kekule_full_first mol of
        None \<Rightarrow> None
      | Some (Inl e) \<Rightarrow> Some (Inl e, mol)
      | Some (Inr None) \<Rightarrow> Some (Inr False, mol)
      | Some (Inr (Some kek)) \<Rightarrow>
          if kek = [] then Some (Inr False, mol)
          else
            (case kekule_patch ch ci kek mol of
               (Some e, mol') \<Rightarrow> Some (Inl e, mol')
             | (None, mol') \<Rightarrow> Some (Inr True, mol')))"

text \<open>
  \<^verbatim>\<open>enumerate_kekule\<close> consumed to its end: the patched copies, in order. A copy
  shares nothing with the molecule.
\<close>

fun patch_copies ::
  "(molecule \<Rightarrow> atom \<Rightarrow> nat) \<Rightarrow> (molecule \<Rightarrow> atom \<Rightarrow> nat option) \<Rightarrow> molecule \<Rightarrow> assignment list \<Rightarrow>
   error + molecule list" where
  "patch_copies ch ci mol [] = Inr []"
| "patch_copies ch ci mol (form # forms) =
     (case kekule_patch ch ci form mol of
        (Some e, _) \<Rightarrow> Inl e
      | (None, copy) \<Rightarrow>
          (case patch_copies ch ci mol forms of
             Inl e \<Rightarrow> Inl e
           | Inr copies \<Rightarrow> Inr (copy # copies)))"

definition enumerate_kekule ::
  "(molecule \<Rightarrow> atom \<Rightarrow> nat) \<Rightarrow> (molecule \<Rightarrow> atom \<Rightarrow> nat option) \<Rightarrow> molecule \<Rightarrow>
   (error + molecule list) option" where
  "enumerate_kekule ch ci mol =
     (case kekule_full mol of
        None \<Rightarrow> None
      | Some (Inl e) \<Rightarrow> Some (Inl e)
      | Some (Inr forms) \<Rightarrow> Some (patch_copies ch ci mol forms))"

text \<open>The order of the bond between two atoms, read through \<^verbatim>\<open>bonds[n][m].order\<close>.\<close>

definition bond_order :: "molecule \<Rightarrow> atom \<Rightarrow> atom \<Rightarrow> nat option" where
  "bond_order mol n m =
     (case map_of (bonds mol) n of
        None \<Rightarrow> None
      | Some m_bond \<Rightarrow> (case map_of m_bond m of None \<Rightarrow> None | Some addr \<Rightarrow> Some (order mol addr)))"

section \<open>Aromatization: \<^verbatim>\<open>thiele\<close>\<close>

text \<open>
  The skeleton of \<^verbatim>\<open>thiele\<close>: the edges of the rings of \<^verbatim>\<open>self.sssr\<close> whose atoms all
  have the mark 2 and are B, C, N or P.
\<close>

definition thiele_ring_ok :: "molecule \<Rightarrow> atom list \<Rightarrow> bool" where
  "thiele_ring_ok mol ring =
     list_all (\<lambda>n. hybridizations mol n = 2 \<and> atomic_number mol n \<in> {5, 6, 7, 15}) ring"

definition add_edge_both :: "atom \<times> atom \<Rightarrow> skeleton \<Rightarrow> skeleton" where
  "add_edge_both = (\<lambda>(n, m) rings. dd_add m n (dd_add n m rings))"

fun thiele_rings :: "molecule \<Rightarrow> atom list list \<Rightarrow> skeleton \<Rightarrow> error + skeleton" where
  "thiele_rings mol [] rings = Inr rings"
| "thiele_rings mol (ring # rs) rings =
     (if thiele_ring_ok mol ring
      then (if length ring < 2 then Inl ValueError
            else thiele_rings mol rs (fold add_edge_both (ring_pairs ring) rings))
      else thiele_rings mol rs rings)"

text \<open>
  The list \<^verbatim>\<open>double_bonded\<close> of \<^verbatim>\<open>thiele\<close>: skeleton atoms with a double bond to an
  atom outside the skeleton.
\<close>

definition quinones :: "molecule \<Rightarrow> skeleton \<Rightarrow> atom list" where
  "quinones mol rings =
     filter (\<lambda>n. list_ex (\<lambda>(m, b). m \<notin> set (keys rings) \<and> order mol b = 2) (dd_get (bonds mol) n))
       (keys rings)"

text \<open>
  \<^verbatim>\<open>rings.pop(n)\<close> raises \<^verbatim>\<open>KeyError\<close> on a missing key (\<open>None\<close> here);
  \<^verbatim>\<open>rings[x].discard(m)\<close> creates the key \<open>x\<close> when it is missing.
\<close>

definition dd_pop :: "atom \<Rightarrow> skeleton \<Rightarrow> (atom list \<times> skeleton) option" where
  "dd_pop n rings =
     (case map_of rings n of
        None \<Rightarrow> None
      | Some ms \<Rightarrow> Some (ms, filter (\<lambda>(k, v). k \<noteq> n) rings))"

fun dd_discard :: "atom \<Rightarrow> atom \<Rightarrow> skeleton \<Rightarrow> skeleton" where
  "dd_discard x m [] = [(x, [])]"
| "dd_discard x m ((k, v) # d) =
     (if k = x then (k, removeAll m v) # d else (k, v) # dd_discard x m d)"

text \<open>The loop \<^verbatim>\<open>for n in double_bonded\<close> that deletes the quinones.\<close>

fun delete_quinones :: "atom list \<Rightarrow> skeleton \<Rightarrow> error + skeleton" where
  "delete_quinones [] rings = Inr rings"
| "delete_quinones (n # ns) rings =
     (case dd_pop n rings of
        None \<Rightarrow> Inl KeyError
      | Some (ms, rings') \<Rightarrow> delete_quinones ns (fold (\<lambda>m. dd_discard m n) ms rings'))"

definition degree_sum :: "skeleton \<Rightarrow> nat" where
  "degree_sum rings = sum_list (map (\<lambda>(n, ms). length ms) rings)"

text \<open>
  The loop \<^verbatim>\<open>while True\<close>: the first atom \<open>n\<close> with one neighbour is popped, its
  neighbour \<open>m\<close> is popped with it, and \<open>m\<close> is discarded from its other neighbours.
\<close>

function strip_chains :: "skeleton \<Rightarrow> error + skeleton" where
  "strip_chains rings =
     (case find (\<lambda>(n, ms). length ms = 1) rings of
        None \<Rightarrow> Inr rings
      | Some (n, ms) \<Rightarrow>
          (case dd_pop (hd ms) (filter (\<lambda>(k, v). k \<noteq> n) rings) of
             None \<Rightarrow> Inl KeyError
           | Some (pm, rings') \<Rightarrow>
               strip_chains (fold (\<lambda>x. dd_discard x (hd ms)) (removeAll n pm) rings')))"
  by pat_completeness auto

lemma degree_sum_filter: "degree_sum (filter P rings) \<le> degree_sum rings"
  by (induction rings) (auto simp: degree_sum_def)

lemma degree_sum_filter_key:
  "(n, ms) \<in> set rings \<Longrightarrow> degree_sum (filter (\<lambda>(k, v). k \<noteq> n) rings) + length ms \<le> degree_sum rings"
proof (induction rings)
  case Nil then show ?case by simp
next
  case (Cons a rings)
  obtain k v where a: "a = (k, v)" by (cases a)
  show ?case
  proof (cases "(n, ms) = a")
    case True
    then show ?thesis using degree_sum_filter[of "\<lambda>(k, v). k \<noteq> n" rings] by (auto simp: degree_sum_def)
  next
    case False
    then have "(n, ms) \<in> set rings" using Cons.prems by auto
    from Cons.IH[OF this] show ?thesis by (auto simp: degree_sum_def a)
  qed
qed

lemma degree_sum_discard: "degree_sum (dd_discard x m rings) \<le> degree_sum rings"
proof (induction rings)
  case Nil then show ?case by (simp add: degree_sum_def)
next
  case (Cons a rings)
  obtain k v where a: "a = (k, v)" by (cases a)
  have "length (removeAll m v) \<le> length v" by (simp add: removeAll_filter_not_eq)
  with Cons show ?case by (auto simp: degree_sum_def a)
qed

lemma degree_sum_fold_discard: "degree_sum (fold (\<lambda>x. dd_discard x m) xs rings) \<le> degree_sum rings"
proof (induction xs arbitrary: rings)
  case Nil then show ?case by simp
next
  case (Cons x xs)
  have "degree_sum (fold (\<lambda>x. dd_discard x m) xs (dd_discard x m rings)) \<le> degree_sum (dd_discard x m rings)"
    by (rule Cons.IH)
  also have "\<dots> \<le> degree_sum rings" by (rule degree_sum_discard)
  finally show ?case by simp
qed

lemma find_SomeD: "find P xs = Some x \<Longrightarrow> x \<in> set xs \<and> P x"
  by (induction xs) (auto split: if_splits)

termination strip_chains
proof (relation "measure degree_sum", goal_cases)
  case 1 show ?case by simp
next
  case (2 rings x2 n ms x2a pm rings')
  have mem: "(n, ms) \<in> set rings" and len: "length ms = 1"
    using find_SomeD[of "\<lambda>(n, ms). length ms = 1" rings "(n, ms)"] 2 by auto
  have "rings' = filter (\<lambda>(k, v). k \<noteq> hd ms) (filter (\<lambda>(k, v). k \<noteq> n) rings)"
    using 2 by (auto simp: dd_pop_def split: option.splits)
  then have "degree_sum rings' \<le> degree_sum (filter (\<lambda>(k, v). k \<noteq> n) rings)"
    by (simp only: degree_sum_filter)
  also have "\<dots> + 1 \<le> degree_sum rings" using degree_sum_filter_key[OF mem] len by simp
  finally have "degree_sum rings' < degree_sum rings" by simp
  with degree_sum_fold_discard[of "hd ms" "removeAll n pm" rings'] show ?case by simp
qed

declare strip_chains.simps [simp del]

text \<open>The block \<^verbatim>\<open>if double_bonded:\<close> of \<^verbatim>\<open>thiele\<close>.\<close>

definition thiele_trim :: "atom list \<Rightarrow> skeleton \<Rightarrow> error + skeleton" where
  "thiele_trim double_bonded rings =
     (if double_bonded \<noteq> [] then
        (case delete_quinones double_bonded rings of
           Inl e \<Rightarrow> Inl e
         | Inr rings' \<Rightarrow> strip_chains rings')
      else Inr rings)"

text \<open>
  The last loops of \<^verbatim>\<open>thiele\<close> write order 4 into the bonds of the rings found and
  mark their atoms. \<^verbatim>\<open>_connected_components\<close> and \<^verbatim>\<open>_sssr\<close> are not among the
  sources: they are the parameters \<open>cc\<close> and \<open>sssr_fn\<close>. The caches and the stereo
  marks that \<^verbatim>\<open>flush_cache\<close> and \<^verbatim>\<open>_fix_stereo\<close> touch are not part of the state
  modelled.
\<close>

fun mark_bonds :: "(atom \<times> atom) list \<Rightarrow> molecule \<Rightarrow> error option \<times> molecule" where
  "mark_bonds [] mol = (None, mol)"
| "mark_bonds ((n, m) # ps) mol =
     (case map_of (bonds mol) n of
        None \<Rightarrow> (Some KeyError, mol)
      | Some m_bond \<Rightarrow>
          (case map_of m_bond m of
             None \<Rightarrow> (Some KeyError, mol)
           | Some addr \<Rightarrow> mark_bonds ps (mol\<lparr>order := (order mol)(addr := 4)\<rparr>)))"

fun mark_rings ::
  "atom list list \<Rightarrow> molecule \<times> atom list \<Rightarrow> error option \<times> molecule \<times> atom list" where
  "mark_rings [] st = (None, st)"
| "mark_rings (ring # rs) (mol, seen) =
     (let seen' = fold set_add ring seen in
      if length ring < 2 then (Some ValueError, mol, seen')
      else
        (case mark_bonds (ring_pairs ring) mol of
           (Some e, mol') \<Rightarrow> (Some e, mol', seen')
         | (None, mol') \<Rightarrow> mark_rings rs (mol', seen')))"

definition thiele ::
  "(skeleton \<Rightarrow> atom list list) \<Rightarrow> (skeleton \<Rightarrow> int \<Rightarrow> atom list list) \<Rightarrow> molecule \<Rightarrow>
   (error + bool) \<times> molecule" where
  "thiele cc sssr_fn mol =
     (case thiele_rings mol (sssr mol) [] of
        Inl e \<Rightarrow> (Inl e, mol)
      | Inr rings \<Rightarrow>
          if rings = [] then (Inr False, mol)
          else
            (case thiele_trim (quinones mol rings) rings of
               Inl e \<Rightarrow> (Inl e, mol)
             | Inr rings1 \<Rightarrow>
                 if rings1 = [] then (Inr False, mol)
                 else
                   let n_sssr = int (degree_sum rings1 div 2) - int (length rings1)
                                + int (length (cc rings1)) in
                   if n_sssr = 0 then (Inr False, mol)
                   else
                     (case mark_rings (sssr_fn rings1 n_sssr) (mol, []) of
                        (Some e, mol', _) \<Rightarrow> (Inl e, mol')
                      | (None, mol', seen) \<Rightarrow>
                          (Inr True,
                           mol'\<lparr>hybridizations :=
                                  fold (\<lambda>n sh. sh(n := 4)) seen (hybridizations mol')\<rparr>))))"

section \<open>Molecules used as concrete inputs\<close>

text \<open>
  Six atoms in a ring, bond \<open>i\<close> between atom \<open>i\<close> and its successor, bond 6 between
  atoms 6 and 1; the fields that differ between the inputs are the arguments.
\<close>

definition six_ring :: "(atom \<Rightarrow> nat) \<Rightarrow> (atom \<Rightarrow> int) \<Rightarrow> (nat \<Rightarrow> nat) \<Rightarrow> molecule" where
  "six_ring an ac ord =
     \<lparr>atomic_number = an, charges = ac, radicals = (\<lambda>_. False), hydrogens = (\<lambda>_. Some 1),
      hybridizations = (\<lambda>_. 4),
      bonds = [(1, [(2, 1), (6, 6)]), (2, [(1, 1), (3, 2)]), (3, [(2, 2), (4, 3)]),
               (4, [(3, 3), (5, 4)]), (5, [(4, 4), (6, 5)]), (6, [(5, 5), (1, 6)])],
      order = ord, sssr = [[1, 2, 3, 4, 5, 6]]\<rparr>"

text \<open>Thiopyrylium: atom 1 is a sulfur cation, not a radical, in an aromatic ring.\<close>

definition thiopyrylium :: molecule where
  "thiopyrylium =
     six_ring (\<lambda>n. if n = 1 then 16 else 6) (\<lambda>n. if n = 1 then 1 else 0) (\<lambda>_. 4)"

text \<open>Cyclohexane: the ring with single bonds only.\<close>

definition cyclohexane :: molecule where
  "cyclohexane = six_ring (\<lambda>_. 6) (\<lambda>_. 0) (\<lambda>_. 1)"

text \<open>An aromatic ring whose atom 1 also carries a triple bond (bond 7) to atom 7.\<close>

definition ring_with_triple_bond :: molecule where
  "ring_with_triple_bond =
     (six_ring (\<lambda>_. 6) (\<lambda>_. 0) (\<lambda>b. if b = 7 then 3 else 4))
       \<lparr>bonds := [(1, [(2, 1), (6, 6), (7, 7)]), (2, [(1, 1), (3, 2)]), (3, [(2, 2), (4, 3)]),
                  (4, [(3, 3), (5, 4)]), (5, [(4, 4), (6, 5)]), (6, [(5, 5), (1, 6)]),
                  (7, [(1, 7)])]\<rparr>"

section \<open>The classifier on S, Se and Te\<close>

text \<open>
  C8, as the claim states it, fails: the claim has every combination other than
  "neutral" and "radical with charge +1" raise. Atom 1 of thiopyrylium is a sulfur with two
  bonds, charge +1 and no radical, outside the set \<^verbatim>\<open>double_bonded\<close>; the classifier
  accepts it and adds it to neither set.
\<close>

theorem classify_chalcogen_counterexample:
  "atomic_number thiopyrylium 1 = 16 \<and> charges thiopyrylium 1 = 1
   \<and> \<not> radicals thiopyrylium 1 \<and> length (dd_get (bonds thiopyrylium) 1) = 2
   \<and> classify thiopyrylium 1 ([], []) = Inr ([], [])"
  by (simp add: thiopyrylium_def six_ring_def classify_def dd_get_def)

text \<open>
  C8, amended: a skeleton atom of element S, Se or Te that is not in \<^verbatim>\<open>double_bonded\<close>
  is accepted only with two bonds (\<^verbatim>\<open>len(bonds[n])\<close>), in three cases: neutral and not a
  radical, it becomes double-bonded; a radical of charge +1, it becomes double-bonded; of
  charge +1 and not a radical, it is accepted and stays unclassified. Every other
  combination, a neutral radical among them, raises the invalid-aromatic-ring error.
\<close>

theorem classify_chalcogen:
  assumes "atomic_number mol n = 16 \<or> atomic_number mol n = 34 \<or> atomic_number mol n = 52"
    and "n \<notin> set double_bonded"
  shows "classify mol n (pyroles, double_bonded) =
     (if length (dd_get (bonds mol) n) = 2 \<and> charges mol n = 0 \<and> \<not> radicals mol n
        then Inr (pyroles, set_add n double_bonded)
      else if length (dd_get (bonds mol) n) = 2 \<and> charges mol n = 1 \<and> radicals mol n
        then Inr (pyroles, set_add n double_bonded)
      else if length (dd_get (bonds mol) n) = 2 \<and> charges mol n = 1 \<and> \<not> radicals mol n
        then Inr (pyroles, double_bonded)
      else Inl InvalidAromaticRing)"
  using assms by (auto simp: classify_def Let_def)

theorem classify_chalcogen_witness:
  "classify thiopyrylium 1 ([], [2]) = Inr ([], [2])"
  using classify_chalcogen [of thiopyrylium 1 "[2]" "[]"]
  by (simp add: thiopyrylium_def six_ring_def dd_get_def)

section \<open>Molecules without aromatic bonds\<close>

definition no_aromatic_bonds :: "molecule \<Rightarrow> bool" where
  "no_aromatic_bonds mol =
     list_all (\<lambda>(n, m_bond). list_all (\<lambda>mb. order mol (snd mb) \<noteq> 4) m_bond) (bonds mol)"

lemma scan_bond_no_aromatic:
  "ord (snd mb) \<noteq> 4 \<Longrightarrow> fst (scan_bond ord n mb st) = fst st"
  by (cases st) (simp add: scan_bond_def Let_def)

lemma scan_inner_no_aromatic:
  "list_all (\<lambda>mb. ord (snd mb) \<noteq> 4) m_bond \<Longrightarrow>
   fst (fold (scan_bond ord n) m_bond st) = fst st"
  by (induction m_bond arbitrary: st) (simp_all add: scan_bond_no_aromatic)

lemma scan_outer_no_aromatic:
  "list_all (\<lambda>(n, m_bond). list_all (\<lambda>mb. ord (snd mb) \<noteq> 4) m_bond) bs \<Longrightarrow>
   fst (fold (\<lambda>(n, m_bond). fold (scan_bond ord n) m_bond) bs st) = fst st"
  by (induction bs arbitrary: st) (auto simp: scan_inner_no_aromatic)

lemma prepare_rings_no_aromatic:
  assumes "no_aromatic_bonds mol"
  shows "prepare_rings mol = Inr ([], [], [])"
proof -
  have "fst (scan_bonds mol) = []"
    unfolding scan_bonds_def
    using scan_outer_no_aromatic [of "order mol" "bonds mol" "([], [], [])"] assms
    by (simp add: no_aromatic_bonds_def)
  then show ?thesis
    by (cases "scan_bonds mol") (simp add: prepare_rings_def)
qed

lemma cyclohexane_no_aromatic: "no_aromatic_bonds cyclohexane"
  by (simp add: no_aromatic_bonds_def cyclohexane_def six_ring_def)

text \<open>
  C7: on a molecule with no bond of order 4, \<^verbatim>\<open>kekule\<close> returns false and leaves the
  molecule, and so every bond order, as it was.
\<close>

theorem kekule_no_aromatic:
  "no_aromatic_bonds mol \<Longrightarrow> kekule ch ci mol = Some (Inr False, mol)"
  by (simp add: kekule_def kekule_full_first_def prepare_rings_no_aromatic generators_def
      keys_def)

theorem kekule_no_aromatic_witness:
  "no_aromatic_bonds cyclohexane
   \<and> kekule (\<lambda>_ _. 1) (\<lambda>_ _. Some 2) cyclohexane = Some (Inr False, cyclohexane)"
  using kekule_no_aromatic [OF cyclohexane_no_aromatic] cyclohexane_no_aromatic by simp

text \<open>
  C10: on a molecule with no bond of order 4, \<^verbatim>\<open>enumerate_kekule\<close> yields exactly one
  copy, equal to the molecule: the product over no component is the one empty assignment.
\<close>

theorem enumerate_kekule_no_aromatic:
  "no_aromatic_bonds mol \<Longrightarrow> enumerate_kekule ch ci mol = Some (Inr [mol])"
  by (simp add: enumerate_kekule_def kekule_full_def prepare_rings_no_aromatic generators_def
      keys_def kekule_patch_def)

theorem enumerate_kekule_no_aromatic_witness:
  "no_aromatic_bonds cyclohexane
   \<and> enumerate_kekule (\<lambda>_ _. 1) (\<lambda>_ _. Some 2) cyclohexane = Some (Inr [cyclohexane])"
  using enumerate_kekule_no_aromatic [OF cyclohexane_no_aromatic] cyclohexane_no_aromatic
  by simp

section \<open>No mutation when the conversion is refused\<close>

lemma patch_bonds_error:
  "patch_bonds patch st = (Some e, st') \<Longrightarrow> e = KeyError"
  by (induction patch st rule: patch_bonds.induct) (auto split: option.splits)

lemma ring_with_triple_bond_refused:
  "kekule (\<lambda>_ _. 1) (\<lambda>_ _. Some 2) ring_with_triple_bond
     = Some (Inl InvalidAromaticRing, ring_with_triple_bond)"
  by (simp add: kekule_def kekule_full_first_def prepare_rings_def scan_bonds_def
      scan_bond_def ring_with_triple_bond_def six_ring_def set_add_def keys_def)

text \<open>
  C3: whenever \<^verbatim>\<open>kekule\<close> raises the invalid-aromatic-ring error, whatever its cause,
  the molecule it leaves is the molecule it was given: bond orders, hybridization marks
  and hydrogen counts are untouched.
\<close>

theorem kekule_error_unchanged:
  "kekule ch ci mol = Some (Inl InvalidAromaticRing, mol') \<Longrightarrow> mol' = mol"
  by (auto simp: kekule_def kekule_patch_def
      split: option.splits sum.splits if_splits prod.splits dest: patch_bonds_error)

theorem kekule_error_unchanged_witness:
  "\<exists>mol'. kekule (\<lambda>_ _. 1) (\<lambda>_ _. Some 2) ring_with_triple_bond
             = Some (Inl InvalidAromaticRing, mol')
     \<and> mol' = ring_with_triple_bond"
  using kekule_error_unchanged [OF ring_with_triple_bond_refused] ring_with_triple_bond_refused
  by simp

section \<open>The quinone trimming of \<^verbatim>\<open>thiele\<close>\<close>

text \<open>
  A skeleton as \<^verbatim>\<open>thiele\<close> builds it: the keys are distinct, no atom is its own
  neighbour, and every edge is entered at both of its ends. \<open>restrict S\<close> keeps the atoms
  of \<open>S\<close> and the edges between them.
\<close>

definition symmetric :: "skeleton \<Rightarrow> bool" where
  "symmetric rings =
     (distinct (keys rings) \<and>
      list_all (\<lambda>(n, ms). list_all (\<lambda>m. m \<noteq> n \<and> n \<in> set (dd_get rings m)) ms) rings)"

definition restrict :: "atom set \<Rightarrow> skeleton \<Rightarrow> skeleton" where
  "restrict S rings = map (\<lambda>(k, v). (k, filter (\<lambda>m. m \<in> S) v)) (filter (\<lambda>(k, v). k \<in> S) rings)"

lemma keys_restrict: "keys (restrict S rings) = filter (\<lambda>k. k \<in> S) (keys rings)"
  by (induction rings) (auto simp: restrict_def keys_def)

lemma map_of_restrict:
  "map_of (restrict S rings) k = (if k \<in> S then map_option (filter (\<lambda>m. m \<in> S)) (map_of rings k) else None)"
  by (induction rings) (auto simp: restrict_def)

lemma dd_get_restrict:
  "dd_get (restrict S rings) k = (if k \<in> S then filter (\<lambda>m. m \<in> S) (dd_get rings k) else [])"
  by (auto simp: dd_get_def map_of_restrict split: option.splits)

lemma symmetricD:
  "symmetric rings \<Longrightarrow> (n, ms) \<in> set rings \<Longrightarrow> m \<in> set ms \<Longrightarrow> m \<noteq> n \<and> n \<in> set (dd_get rings m)"
  by (auto simp: symmetric_def list_all_iff)

lemma symmetric_restrict: "symmetric rings \<Longrightarrow> symmetric (restrict S rings)"
proof -
  assume s: "symmetric rings"
  have d: "distinct (keys (restrict S rings))"
    using s by (simp add: keys_restrict symmetric_def)
  have "m \<noteq> n \<and> n \<in> set (dd_get (restrict S rings) m)"
    if "(n, ms) \<in> set (restrict S rings)" "m \<in> set ms" for n ms m
  proof -
    from that obtain v where v: "(n, v) \<in> set rings" "n \<in> S" "ms = filter (\<lambda>m. m \<in> S) v"
      by (auto simp: restrict_def)
    with that have "m \<in> set v" "m \<in> S" by auto
    with symmetricD[OF s v(1)] v(2) show ?thesis by (simp add: dd_get_restrict)
  qed
  with d show ?thesis by (auto simp: symmetric_def list_all_iff)
qed

lemma dd_get_key: "x \<in> set (dd_get rings m) \<Longrightarrow> m \<in> set (keys rings)"
proof (cases "map_of rings m")
  case None
  assume "x \<in> set (dd_get rings m)"
  with None show ?thesis by (simp add: dd_get_def)
next
  case (Some v)
  then have "(m, v) \<in> set rings" by (rule map_of_SomeD)
  then show ?thesis by (force simp: keys_def)
qed

lemma dd_discard_key:
  "x \<in> set (keys rings) \<Longrightarrow>
   dd_discard x m rings = map (\<lambda>(k, v). if k = x then (k, removeAll m v) else (k, v)) rings"
  if "distinct (keys rings)"
  using that
proof (induction rings)
  case Nil then show ?case by (simp add: keys_def)
next
  case (Cons a rings)
  obtain k v where a: "a = (k, v)" by (cases a)
  show ?case
  proof (cases "k = x")
    case True
    then have "x \<notin> set (keys rings)" using Cons.prems a by (simp add: keys_def)
    then have "map (\<lambda>(k, v). if k = x then (k, removeAll m v) else (k, v)) rings = rings"
      by (induction rings) (auto simp: keys_def)
    with True a show ?thesis by simp
  next
    case False
    with Cons a show ?thesis by (simp add: keys_def)
  qed
qed

lemma keys_map_snd: "keys (map (\<lambda>(k, v). (k, f k v)) rings) = keys rings"
  by (induction rings) (auto simp: keys_def)

lemma fold_discard:
  "distinct (keys rings) \<Longrightarrow> set xs \<subseteq> set (keys rings) \<Longrightarrow>
   fold (\<lambda>x. dd_discard x m) xs rings
     = map (\<lambda>(k, v). if k \<in> set xs then (k, removeAll m v) else (k, v)) rings"
proof (induction xs arbitrary: rings)
  case Nil
  then show ?case by (simp add: case_prod_beta)
next
  case (Cons x xs)
  let ?r1 = "map (\<lambda>(k, v). if k = x then (k, removeAll m v) else (k, v)) rings"
  have k1: "keys ?r1 = keys rings" by (induction rings) (auto simp: keys_def)
  have "dd_discard x m rings = ?r1" using Cons.prems by (simp add: dd_discard_key)
  moreover have "fold (\<lambda>x. dd_discard x m) xs ?r1
     = map (\<lambda>(k, v). if k \<in> set xs then (k, removeAll m v) else (k, v)) ?r1"
    using Cons.prems by (intro Cons.IH) (simp_all add: k1)
  ultimately show ?case by (auto simp: case_prod_beta)
qed

lemma map_of_filter_key:
  "map_of (filter (\<lambda>(k, v). k \<noteq> n) rings) k = (if k = n then None else map_of rings k)"
  by (induction rings) auto

lemma keys_filter_key: "keys (filter (\<lambda>(k, v). k \<noteq> n) rings) = removeAll n (keys rings)"
  by (induction rings) (auto simp: keys_def)

text \<open>Removing the atom n of a symmetric skeleton, as a quinone is removed.\<close>

lemma remove_atom:
  assumes s: "symmetric rings" and m: "map_of rings n = Some ms"
  shows "fold (\<lambda>x. dd_discard x n) ms (filter (\<lambda>(k, v). k \<noteq> n) rings) = restrict (- {n}) rings"
proof -
  let ?r = "filter (\<lambda>(k, v). k \<noteq> n) rings"
  have mem: "(n, ms) \<in> set rings" using m by (rule map_of_SomeD)
  have d: "distinct (keys ?r)" using s by (simp add: keys_filter_key symmetric_def distinct_removeAll)
  have sub: "set ms \<subseteq> set (keys ?r)"
  proof
    fix x assume "x \<in> set ms"
    with symmetricD[OF s mem] have "x \<noteq> n" "n \<in> set (dd_get rings x)" by auto
    then show "x \<in> set (keys ?r)" by (auto simp: keys_filter_key dest: dd_get_key)
  qed
  have "fold (\<lambda>x. dd_discard x n) ms ?r
      = map (\<lambda>(k, v). if k \<in> set ms then (k, removeAll n v) else (k, v)) ?r"
    by (rule fold_discard[OF d sub])
  also have "\<dots> = map (\<lambda>(k, v). (k, filter (\<lambda>m. m \<in> - {n}) v)) ?r"
  proof (rule map_cong[OF refl])
    fix e assume e: "e \<in> set ?r"
    obtain k v where kv: "e = (k, v)" by (cases e)
    with e have kv_in: "(k, v) \<in> set rings" by auto
    have "removeAll n v = filter (\<lambda>m. m \<in> - {n}) v" by (induction v) auto
    moreover have "v = filter (\<lambda>m. m \<in> - {n}) v" if "k \<notin> set ms"
    proof -
      have "n \<notin> set v"
      proof
        assume "n \<in> set v"
        with symmetricD[OF s kv_in] have "k \<in> set (dd_get rings n)" by simp
        with m that show False by (simp add: dd_get_def)
      qed
      then show ?thesis by (induction v) auto
    qed
    ultimately show "(case e of (k, v) \<Rightarrow> if k \<in> set ms then (k, removeAll n v) else (k, v))
        = (case e of (k, v) \<Rightarrow> (k, filter (\<lambda>m. m \<in> - {n}) v))"
      by (auto simp: kv)
  qed
  also have "\<dots> = restrict (- {n}) rings"
    by (simp add: restrict_def case_prod_beta)
  finally show ?thesis .
qed

lemma restrict_restrict: "restrict S (restrict T rings) = restrict (S \<inter> T) rings"
  by (induction rings) (auto simp: restrict_def conj_commute)

lemma map_of_keys: "distinct (keys rings) \<Longrightarrow> n \<in> set (keys rings) \<Longrightarrow> \<exists>ms. map_of rings n = Some ms"
  by (cases "map_of rings n") (auto simp: map_of_eq_None_iff keys_def)

lemma delete_quinones_restrict:
  "symmetric rings \<Longrightarrow> distinct ns \<Longrightarrow> set ns \<subseteq> set (keys rings) \<Longrightarrow>
   delete_quinones ns rings = Inr (restrict (- set ns) rings)"
proof (induction ns arbitrary: rings)
  case Nil
  have "restrict UNIV rings = rings" by (induction rings) (auto simp: restrict_def)
  then show ?case by simp
next
  case (Cons n ns)
  from Cons.prems obtain ms where ms: "map_of rings n = Some ms"
    using map_of_keys[of rings n] by (auto simp: symmetric_def)
  let ?r1 = "restrict (- {n}) rings"
  have step: "fold (\<lambda>m. dd_discard m n) ms (filter (\<lambda>(k, v). k \<noteq> n) rings) = ?r1"
    by (rule remove_atom[OF Cons.prems(1) ms])
  have "set ns \<subseteq> set (keys ?r1)" using Cons.prems by (auto simp: keys_restrict)
  then have "delete_quinones ns ?r1 = Inr (restrict (- set ns) ?r1)"
    using Cons.prems by (intro Cons.IH symmetric_restrict) simp_all
  moreover have "- set ns \<inter> - {n} = - set (n # ns)" by auto
  ultimately show ?case by (simp add: dd_pop_def ms step restrict_restrict)
qed

lemma filter_map_same:
  assumes "\<And>k v. (k, v) \<in> set rings \<Longrightarrow> k \<noteq> m \<Longrightarrow> f v = v"
  shows "filter (\<lambda>(k, v). k \<noteq> m) (map (\<lambda>(k, v). (k, f v)) rings)
       = filter (\<lambda>(k, v). k \<noteq> m) rings"
  using assms
proof (induction rings)
  case Nil
  then show ?case by simp
next
  case (Cons a rings)
  obtain k v where a: "a = (k, v)" by (cases a)
  have 1: "k \<noteq> m \<Longrightarrow> f v = v" using Cons.prems[of k v] by (simp add: a)
  have 2: "filter (\<lambda>(k, v). k \<noteq> m) (map (\<lambda>(k, v). (k, f v)) rings)
       = filter (\<lambda>(k, v). k \<noteq> m) rings"
  proof (rule Cons.IH)
    fix k' v' assume "(k', v') \<in> set rings" "k' \<noteq> m"
    then show "f v' = v'" using Cons.prems[of k' v'] by simp
  qed
  show ?case using 1 2 by (simp add: a)
qed

lemma strip_step:
  assumes s: "symmetric rings" and f: "find (\<lambda>(n, ms). length ms = 1) rings = Some (n, ms)"
  shows "\<exists>pm rings'. dd_pop (hd ms) (filter (\<lambda>(k, v). k \<noteq> n) rings) = Some (pm, rings')
     \<and> fold (\<lambda>x. dd_discard x (hd ms)) (removeAll n pm) rings' = restrict (- {n, hd ms}) rings"
proof -
  from find_SomeD[OF f] have mem: "(n, ms) \<in> set rings" and len: "length ms = 1" by auto
  then obtain m where ms: "ms = [m]" by (cases ms) auto
  have d: "distinct (keys rings)" using s by (simp add: symmetric_def)
  have mn: "map_of rings n = Some [m]" using mem d ms by (simp add: keys_def)
  from symmetricD[OF s mem, of m] ms have neq: "m \<noteq> n" and nb: "n \<in> set (dd_get rings m)" by auto
  from nb obtain pm where pm: "map_of rings m = Some pm"
    by (cases "map_of rings m") (auto simp: dd_get_def)
  let ?r1 = "restrict (- {n}) rings"
  let ?f1 = "filter (\<lambda>(k, v). k \<noteq> n) rings"
  have pop: "dd_pop m ?f1 = Some (pm, filter (\<lambda>(k, v). k \<noteq> m) ?f1)"
    using neq pm by (simp add: dd_pop_def map_of_filter_key)
  have s1: "symmetric ?r1" by (rule symmetric_restrict[OF s])
  have m1: "map_of ?r1 m = Some (removeAll n pm)"
  proof -
    have "filter (\<lambda>x. x \<noteq> n) pm = removeAll n pm" by (induction pm) auto
    then show ?thesis using neq pm by (simp add: map_of_restrict)
  qed
  have same: "filter (\<lambda>(k, v). k \<noteq> m) ?f1 = filter (\<lambda>(k, v). k \<noteq> m) ?r1"
  proof -
    have "filter (\<lambda>x. x \<in> - {n}) v = v" if "(k, v) \<in> set (filter (\<lambda>(k, v). k \<in> - {n}) rings)" "k \<noteq> m" for k v
    proof -
      from that(1) have kv: "(k, v) \<in> set rings" by simp
      have "n \<notin> set v"
      proof
        assume "n \<in> set v"
        with symmetricD[OF s kv] have "k \<in> set (dd_get rings n)" by simp
        with mn that(2) show False by (simp add: dd_get_def)
      qed
      then show ?thesis by (induction v) auto
    qed
    then have "filter (\<lambda>(k, v). k \<noteq> m) (map (\<lambda>(k, v). (k, filter (\<lambda>x. x \<in> - {n}) v))
              (filter (\<lambda>(k, v). k \<in> - {n}) rings))
        = filter (\<lambda>(k, v). k \<noteq> m) (filter (\<lambda>(k, v). k \<in> - {n}) rings)"
      by (rule filter_map_same)
    then show ?thesis by (simp add: restrict_def)
  qed
  have eq: "- {m} \<inter> - {n} = - {n, m}" by auto
  have "fold (\<lambda>x. dd_discard x m) (removeAll n pm) (filter (\<lambda>(k, v). k \<noteq> m) ?f1)
      = fold (\<lambda>x. dd_discard x m) (removeAll n pm) (filter (\<lambda>(k, v). k \<noteq> m) ?r1)"
    by (simp only: same)
  also have "\<dots> = restrict (- {m}) ?r1"
    by (rule remove_atom[OF s1 m1])
  also have "\<dots> = restrict (- {n, m}) rings"
    by (simp only: restrict_restrict eq)
  finally have fin: "fold (\<lambda>x. dd_discard x m) (removeAll n pm) (filter (\<lambda>(k, v). k \<noteq> m) ?f1)
      = restrict (- {n, m}) rings" .
  show ?thesis unfolding ms list.sel using pop fin by blast
qed

lemma find_None_all: "find P xs = None \<Longrightarrow> list_all (\<lambda>x. \<not> P x) xs"
  by (induction xs) (auto split: if_splits)

text \<open>The skeleton that \<^verbatim>\<open>thiele\<close> builds from rings of distinct atoms is symmetric.\<close>

lemma set_set_add: "set (set_add x xs) = insert x (set xs)"
  by (auto simp: set_add_def)

lemma dd_get_dd_add:
  "dd_get (dd_add n m R) k = (if k = n then set_add m (dd_get R n) else dd_get R k)"
  by (induction R) (auto simp: dd_get_def set_add_def)

lemma keys_dd_add:
  "keys (dd_add n m R) = (if n \<in> set (keys R) then keys R else keys R @ [n])"
  by (induction R) (force simp: keys_def)+

lemma distinct_keys_dd_add: "distinct (keys R) \<Longrightarrow> distinct (keys (dd_add n m R))"
  by (simp add: keys_dd_add)

lemma symmetric_iff:
  "symmetric R \<longleftrightarrow> distinct (keys R) \<and>
     (\<forall>n m. m \<in> set (dd_get R n) \<longrightarrow> m \<noteq> n \<and> n \<in> set (dd_get R m))"
proof (cases "distinct (keys R)")
  case False
  then show ?thesis by (simp add: symmetric_def)
next
  case d: True
  have a: "(n, ms) \<in> set R \<Longrightarrow> dd_get R n = ms" for n ms
    using d by (simp add: keys_def dd_get_def)
  have b: "m \<in> set (dd_get R n) \<Longrightarrow> (n, dd_get R n) \<in> set R" for n m
    by (cases "map_of R n") (auto simp: dd_get_def dest: map_of_SomeD)
  show ?thesis
  proof
    assume s: "symmetric R"
    have "m \<noteq> n \<and> n \<in> set (dd_get R m)" if "m \<in> set (dd_get R n)" for n m
      using symmetricD[OF s b[OF that] that] .
    with d show "distinct (keys R) \<and> (\<forall>n m. m \<in> set (dd_get R n) \<longrightarrow> m \<noteq> n \<and> n \<in> set (dd_get R m))"
      by simp
  next
    assume h: "distinct (keys R) \<and> (\<forall>n m. m \<in> set (dd_get R n) \<longrightarrow> m \<noteq> n \<and> n \<in> set (dd_get R m))"
    have "m \<noteq> n \<and> n \<in> set (dd_get R m)" if "(n, ms) \<in> set R" "m \<in> set ms" for n ms m
      using h a[OF that(1)] that(2) by simp
    with d show "symmetric R" by (auto simp: symmetric_def list_all_iff)
  qed
qed

lemma symmetric_add_edge_both:
  assumes "symmetric R" "n \<noteq> m"
  shows "symmetric (add_edge_both (n, m) R)"
  using assms
  by (simp add: symmetric_iff add_edge_both_def distinct_keys_dd_add dd_get_dd_add set_set_add)

lemma symmetric_fold_edges:
  "symmetric R \<Longrightarrow> list_all (\<lambda>(n, m). n \<noteq> m) ps \<Longrightarrow> symmetric (fold add_edge_both ps R)"
proof (induction ps arbitrary: R)
  case Nil
  then show ?case by simp
next
  case (Cons p ps)
  obtain n m where p: "p = (n, m)" by (cases p)
  from Cons.prems have "symmetric (add_edge_both (n, m) R)"
    by (intro symmetric_add_edge_both) (simp_all add: p)
  with Cons.prems show ?case by (simp add: p Cons.IH)
qed

lemma zip_tl_distinct: "distinct r \<Longrightarrow> list_all (\<lambda>(n, m). n \<noteq> m) (zip r (tl r))"
proof (induction r)
  case Nil
  then show ?case by simp
next
  case (Cons a r)
  then show ?case by (cases r) auto
qed

lemma ring_pairs_distinct:
  assumes "distinct r" "2 \<le> length r"
  shows "list_all (\<lambda>(n, m). n \<noteq> m) (ring_pairs r)"
proof -
  from assms obtain a b r' where r: "r = a # b # r'"
    by (cases r; cases "tl r") auto
  have "last (b # r') \<in> set (b # r')" by (rule last_in_set) simp
  with assms(1) have "a \<noteq> last r" unfolding r by auto
  with zip_tl_distinct[OF assms(1)] show ?thesis by (simp add: ring_pairs_def r)
qed

lemma symmetric_thiele_rings:
  "symmetric R \<Longrightarrow> list_all distinct rs \<Longrightarrow> thiele_rings mol rs R = Inr R' \<Longrightarrow> symmetric R'"
proof (induction rs arbitrary: R)
  case Nil
  then show ?case by simp
next
  case (Cons r rs)
  show ?case
  proof (cases "thiele_ring_ok mol r")
    case False
    with Cons.prems show ?thesis by (auto intro: Cons.IH)
  next
    case True
    with Cons.prems have len: "2 \<le> length r"
      and run: "thiele_rings mol rs (fold add_edge_both (ring_pairs r) R) = Inr R'"
      by (auto split: if_splits)
    from Cons.prems have "distinct r" by simp
    from symmetric_fold_edges[OF Cons.prems(1) ring_pairs_distinct[OF this len]]
    have "symmetric (fold add_edge_both (ring_pairs r) R)" .
    from Cons.IH[OF this _ run] Cons.prems show ?thesis by simp
  qed
qed

lemma symmetric_Nil: "symmetric []"
  by (simp add: symmetric_def keys_def)

lemma thiele_rings_symmetric:
  "list_all distinct rs \<Longrightarrow> thiele_rings mol rs [] = Inr rings \<Longrightarrow> symmetric rings"
  by (rule symmetric_thiele_rings[OF symmetric_Nil])

text \<open>
  The trimming in the words of the amended claim. \<open>without xs\<close> removes the atoms \<open>xs\<close>
  from the skeleton, with every edge that ends at one of them.
\<close>

definition without :: "atom list \<Rightarrow> skeleton \<Rightarrow> skeleton" where
  "without xs rings =
     map (\<lambda>(k, v). (k, filter (\<lambda>m. m \<notin> set xs) v)) (filter (\<lambda>(k, v). k \<notin> set xs) rings)"

lemma without_restrict: "without xs rings = restrict (- set xs) rings"
  by (simp add: without_def restrict_def)

lemma length_without: "(n, ms) \<in> set rings \<Longrightarrow> n \<in> set xs \<Longrightarrow> length (without xs rings) < length rings"
proof (induction rings)
  case Nil
  then show ?case by simp
next
  case (Cons a rings)
  obtain k v where a: "a = (k, v)" by (cases a)
  show ?case
  proof (cases "k \<in> set xs")
    case True
    then show ?thesis by (simp add: without_def a less_Suc_eq_le)
  next
    case False
    with Cons.prems have "(n, ms) \<in> set rings" by (auto simp: a)
    from Cons.IH[OF this Cons.prems(2)] False show ?thesis by (simp add: without_def a)
  qed
qed

text \<open>
  \<open>strip_pairs\<close>: as long as some atom has exactly one neighbour, the first such atom of
  the skeleton and that neighbour are removed together.
\<close>

function strip_pairs :: "skeleton \<Rightarrow> skeleton" where
  "strip_pairs rings =
     (case find (\<lambda>(n, ms). length ms = 1) rings of
        None \<Rightarrow> rings
      | Some (n, ms) \<Rightarrow> strip_pairs (without [n, hd ms] rings))"
  by pat_completeness auto

termination strip_pairs
proof (relation "measure length", goal_cases)
  case 1 show ?case by simp
next
  case (2 rings x2 n ms)
  have "(n, ms) \<in> set rings"
    using find_SomeD[of "\<lambda>(n, ms). length ms = 1" rings "(n, ms)"] 2 by auto
  from length_without[OF this, of "[n, hd ms]"] show ?case by simp
qed

declare strip_pairs.simps [simp del]

lemma strip_chains_pairs: "symmetric rings \<Longrightarrow> strip_chains rings = Inr (strip_pairs rings)"
proof (induction rings rule: strip_chains.induct)
  case (1 rings)
  show ?case
  proof (cases "find (\<lambda>(n, ms). length ms = 1) rings")
    case None
    then show ?thesis by (subst strip_chains.simps, subst strip_pairs.simps) simp
  next
    case (Some a)
    obtain n ms where a: "a = (n, ms)" by (cases a)
    from strip_step[OF "1.prems" Some[unfolded a]] obtain pm rings' where
      pop: "dd_pop (hd ms) (filter (\<lambda>(k, v). k \<noteq> n) rings) = Some (pm, rings')" and
      res: "fold (\<lambda>x. dd_discard x (hd ms)) (removeAll n pm) rings' = restrict (- {n, hd ms}) rings"
      by blast
    have w: "restrict (- {n, hd ms}) rings = without [n, hd ms] rings"
      by (simp add: without_restrict)
    have "symmetric (restrict (- {n, hd ms}) rings)" by (rule symmetric_restrict[OF "1.prems"])
    then have "symmetric (fold (\<lambda>x. dd_discard x (hd ms)) (removeAll n pm) rings')"
      by (simp only: res)
    from "1.IH"[OF Some a[symmetric] pop refl this, unfolded res w]
    have r: "strip_chains (without [n, hd ms] rings) = Inr (strip_pairs (without [n, hd ms] rings))" .
    have "strip_chains rings = Inr (strip_pairs (without [n, hd ms] rings))"
      by (subst strip_chains.simps) (simp only: Some a pop res w r option.case prod.case)
    moreover have "strip_pairs rings = strip_pairs (without [n, hd ms] rings)"
      by (subst strip_pairs.simps) (simp only: Some a option.case prod.case)
    ultimately show ?thesis by simp
  qed
qed

lemma strip_pairs_clean: "list_all (\<lambda>(n, ms). length ms \<noteq> 1) (strip_pairs rings)"
proof (induction rings rule: strip_pairs.induct)
  case (1 rings)
  show ?case
  proof (cases "find (\<lambda>(n, ms). length ms = 1) rings")
    case None
    from find_None_all[OF None] have "list_all (\<lambda>(n, ms). length ms \<noteq> 1) rings"
      by (auto simp: list_all_iff)
    with None show ?thesis by (subst strip_pairs.simps) simp
  next
    case (Some a)
    obtain n ms where a: "a = (n, ms)" by (cases a)
    have "strip_pairs rings = strip_pairs (without [n, hd ms] rings)"
      by (subst strip_pairs.simps) (simp only: Some a option.case prod.case)
    with "1.IH"[OF Some a[symmetric]] show ?thesis by simp
  qed
qed


text \<open>
  Three rings of sp2 carbons: the five-ring 1-2-3-4-5 with the carbonyl carbons 2 and 5,
  the six-ring 10-11-12-13-14-15, and the six-ring 10-6-7-8-9-11 with the carbonyl carbon
  6. The double bonds are 3=4, 7=8, 9=11, 12=13, 10=15, 1=14 and the three C=O.
\<close>

definition tricycle :: molecule where
  "tricycle =
     \<lparr>atomic_number = (\<lambda>n. if 16 \<le> n then 8 else 6), charges = (\<lambda>_. 0), radicals = (\<lambda>_. False),
      hydrogens = (\<lambda>_. Some 0), hybridizations = (\<lambda>_. 2),
      bonds = [(1, [(2, 1), (5, 5), (14, 20)]), (2, [(1, 1), (3, 2), (16, 21)]), (3, [(2, 2), (4, 3)]),
               (4, [(3, 3), (5, 4)]), (5, [(4, 4), (1, 5), (17, 22)]),
               (6, [(10, 6), (7, 7), (18, 23)]), (7, [(6, 7), (8, 8)]), (8, [(7, 8), (9, 9)]),
               (9, [(8, 9), (11, 10)]),
               (10, [(6, 6), (11, 11), (15, 16)]), (11, [(9, 10), (10, 11), (12, 12)]),
               (12, [(11, 12), (13, 13)]), (13, [(12, 13), (14, 14)]), (14, [(13, 14), (15, 15), (1, 20)]),
               (15, [(14, 15), (10, 16)]),
               (16, [(2, 21)]), (17, [(5, 22)]), (18, [(6, 23)])],
      order = (\<lambda>b. if b \<in> {3, 20, 21, 22, 23, 8, 10, 13, 16} then 2 else 1),
      sssr = [[1, 2, 3, 4, 5], [10, 11, 12, 13, 14, 15], [10, 6, 7, 8, 9, 11]]\<rparr>"

definition tricycle_skeleton :: skeleton where
  "tricycle_skeleton =
     [(1, [5, 2]), (5, [1, 4]), (2, [1, 3]), (3, [2, 4]), (4, [3, 5]),
      (10, [15, 11, 6]), (15, [10, 14]), (11, [10, 12, 9]), (12, [11, 13]),
      (13, [12, 14]), (14, [13, 15]), (6, [10, 7]), (7, [6, 8]),
      (8, [7, 9]), (9, [8, 11])]"

lemma tricycle_rings: "thiele_rings tricycle (sssr tricycle) [] = Inr tricycle_skeleton"
  by code_simp

lemma tricycle_quinones: "quinones tricycle tricycle_skeleton = [5, 2, 6]"
  by code_simp

lemma tricycle_distinct: "list_all distinct (sssr tricycle)"
  by code_simp


text \<open>
  C5, as the claim states it, fails. In the tricycle the quinone atoms are 5, 2 and 6. After
  their removal the six-ring 10-11-12-13-14-15 is intact, with atom 9 hanging on atom 11
  through the chain 7-8-9. The trimming removes the pairs (3, 4), (7, 8), (9, 11) and then
  (10, 15), (12, 13): five atoms of the cycle are removed, and the atoms 1 and 14 that
  remain have degree 0.
\<close>

theorem thiele_trim_counterexample:
  "thiele_rings tricycle (sssr tricycle) [] = Inr tricycle_skeleton
   \<and> quinones tricycle tricycle_skeleton = [5, 2, 6]
   \<and> delete_quinones [5, 2, 6] tricycle_skeleton =
       Inr [(1, []), (3, [4]), (4, [3]), (10, [15, 11]), (15, [10, 14]),
            (11, [10, 12, 9]), (12, [11, 13]), (13, [12, 14]), (14, [13, 15]),
            (7, [8]), (8, [7, 9]), (9, [8, 11])]
   \<and> thiele_trim [5, 2, 6] tricycle_skeleton = Inr [(1, []), (14, [])]"
  by code_simp


text \<open>
  C5, amended: when the rings of \<^verbatim>\<open>self.sssr\<close> are lists of distinct atoms and there
  are quinone atoms on the skeleton that \<^verbatim>\<open>thiele\<close> builds, the trimming step ends
  without an error, and its result is exactly this: the quinone atoms are removed with their
  edges; then, as long as some atom has exactly one neighbour, the first such atom and that
  neighbour are removed together with their edges, whatever the degree of the neighbour.
  No atom of the result has degree 1. An atom on a cycle can be removed as the neighbour of
  a degree-1 atom, and atoms of degree 0 can remain.
\<close>

theorem thiele_trim_pairs:
  assumes "list_all distinct (sssr mol)"
    and "thiele_rings mol (sssr mol) [] = Inr rings"
    and "quinones mol rings \<noteq> []"
  shows "thiele_trim (quinones mol rings) rings
           = Inr (strip_pairs (without (quinones mol rings) rings))
     \<and> list_all (\<lambda>(n, ms). length ms \<noteq> 1) (strip_pairs (without (quinones mol rings) rings))"
proof -
  let ?q = "quinones mol rings"
  have s: "symmetric rings" by (rule thiele_rings_symmetric[OF assms(1) assms(2)])
  have d: "distinct ?q" and sub: "set ?q \<subseteq> set (keys rings)"
    using s by (auto simp: quinones_def symmetric_def)
  have del: "delete_quinones ?q rings = Inr (without ?q rings)"
    using delete_quinones_restrict[OF s d sub] by (simp add: without_restrict)
  have "symmetric (without ?q rings)"
    using symmetric_restrict[OF s, of "- set ?q"] by (simp add: without_restrict)
  from strip_chains_pairs[OF this]
  have "thiele_trim ?q rings = Inr (strip_pairs (without ?q rings))"
    using assms(3) by (simp add: thiele_trim_def del)
  with strip_pairs_clean show ?thesis by simp
qed

theorem thiele_trim_pairs_witness:
  "list_all distinct (sssr tricycle)
   \<and> thiele_rings tricycle (sssr tricycle) [] = Inr tricycle_skeleton
   \<and> quinones tricycle tricycle_skeleton \<noteq> []
   \<and> thiele_trim (quinones tricycle tricycle_skeleton) tricycle_skeleton
       = Inr (strip_pairs (without (quinones tricycle tricycle_skeleton) tricycle_skeleton))
   \<and> list_all (\<lambda>(n, ms). length ms \<noteq> 1)
       (strip_pairs (without (quinones tricycle tricycle_skeleton) tricycle_skeleton))"
proof -
  have q: "quinones tricycle tricycle_skeleton \<noteq> []" by (simp add: tricycle_quinones)
  from thiele_trim_pairs [OF tricycle_distinct tricycle_rings q] tricycle_distinct tricycle_rings q
  show ?thesis by simp
qed

section \<open>The benzene ring\<close>

text \<open>Scanning bonds that are all aromatic.\<close>

lemma dd_add_append_new:
  "n \<notin> set (keys R) \<Longrightarrow> dd_add n m R = R @ [(n, [m])]"
  by (induction R) (auto simp: keys_def)

lemma dd_add_append_last:
  "n \<notin> set (keys R) \<Longrightarrow> dd_add n m (R @ [(n, acc)]) = R @ [(n, set_add m acc)]"
  by (induction R) (auto simp: keys_def)

lemma scan_inner_aromatic:
  "n \<notin> set (keys R) \<Longrightarrow> list_all (\<lambda>mb. ord (snd mb) = 4) mb \<Longrightarrow> distinct (acc @ map fst mb) \<Longrightarrow>
   fold (scan_bond ord n) mb (R @ [(n, acc)], db, tb) = (R @ [(n, acc @ map fst mb)], db, tb)"
proof (induction mb arbitrary: acc)
  case Nil
  then show ?case by simp
next
  case (Cons x mb)
  have "scan_bond ord n x (R @ [(n, acc)], db, tb) = (R @ [(n, acc @ [fst x])], db, tb)"
    using Cons.prems by (simp add: scan_bond_def dd_add_append_last set_add_def)
  moreover have "fold (scan_bond ord n) mb (R @ [(n, acc @ [fst x])], db, tb)
      = (R @ [(n, (acc @ [fst x]) @ map fst mb)], db, tb)"
    using Cons.prems by (intro Cons.IH) simp_all
  ultimately show ?case by simp
qed

lemma scan_inner_aromatic':
  assumes "n \<notin> set (keys R)" "list_all (\<lambda>mb. ord (snd mb) = 4) mb" "distinct (map fst mb)" "mb \<noteq> []"
  shows "fold (scan_bond ord n) mb (R, db, tb) = (R @ [(n, map fst mb)], db, tb)"
proof -
  obtain x xs where mb: "mb = x # xs" using assms(4) by (cases mb) auto
  have "scan_bond ord n x (R, db, tb) = (R @ [(n, [fst x])], db, tb)"
    using assms mb by (simp add: scan_bond_def dd_add_append_new)
  moreover have "fold (scan_bond ord n) xs (R @ [(n, [fst x])], db, tb)
      = (R @ [(n, [fst x] @ map fst xs)], db, tb)"
    using assms mb by (intro scan_inner_aromatic) simp_all
  ultimately show ?thesis by (simp add: mb)
qed

definition aromatic_entry :: "(nat \<Rightarrow> nat) \<Rightarrow> atom \<times> (atom \<times> nat) list \<Rightarrow> bool" where
  "aromatic_entry ord = (\<lambda>(n, mb).
     mb \<noteq> [] \<and> distinct (map fst mb) \<and> list_all (\<lambda>x. ord (snd x) = 4) mb)"

lemma scan_outer_aromatic:
  "distinct (keys R @ keys bs) \<Longrightarrow> list_all (aromatic_entry ord) bs \<Longrightarrow>
   fold (\<lambda>(n, m_bond). fold (scan_bond ord n) m_bond) bs (R, db, tb)
     = (R @ map (\<lambda>(n, mb). (n, map fst mb)) bs, db, tb)"
proof (induction bs arbitrary: R)
  case Nil
  then show ?case by simp
next
  case (Cons b bs)
  obtain n mb where b: "b = (n, mb)" by (cases b)
  have n: "n \<notin> set (keys R)" using Cons.prems b by (auto simp: keys_def)
  have step: "fold (scan_bond ord n) mb (R, db, tb) = (R @ [(n, map fst mb)], db, tb)"
    using Cons.prems(2) b n by (intro scan_inner_aromatic') (simp_all add: aromatic_entry_def)
  have "distinct (keys (R @ [(n, map fst mb)]) @ keys bs)"
    using Cons.prems(1) b by (auto simp: keys_def)
  then have "fold (\<lambda>(n, m_bond). fold (scan_bond ord n) m_bond) bs (R @ [(n, map fst mb)], db, tb)
     = ((R @ [(n, map fst mb)]) @ map (\<lambda>(n, mb). (n, map fst mb)) bs, db, tb)"
    using Cons.prems(2) by (intro Cons.IH) simp_all
  then show ?case by (simp add: b step)
qed

definition skeleton_of :: "(atom \<times> (atom \<times> nat) list) list \<Rightarrow> skeleton" where
  "skeleton_of bs = map (\<lambda>(n, mb). (n, map fst mb)) bs"

lemma scan_bonds_aromatic:
  "distinct (keys (bonds mol)) \<Longrightarrow> list_all (aromatic_entry (order mol)) (bonds mol) \<Longrightarrow>
   scan_bonds mol = (skeleton_of (bonds mol), [], [])"
  unfolding scan_bonds_def skeleton_of_def
  using scan_outer_aromatic[of "[]" "bonds mol" "order mol" "[]" "[]"] by (simp add: keys_def)

lemma keys_skeleton_of: "keys (skeleton_of bs) = keys bs"
  by (induction bs) (auto simp: skeleton_of_def keys_def)

lemma dd_get_skeleton_of: "dd_get (skeleton_of bs) n = map fst (dd_get bs n)"
  by (induction bs) (auto simp: skeleton_of_def dd_get_def)

text \<open>The ring-closing loop adds nothing when the rings follow edges of the skeleton.\<close>

lemma add_ring_edges_same:
  "list_all (\<lambda>(n, m). n \<in> set (dd_get rings m)) ps \<Longrightarrow> fold add_ring_edge ps rings = rings"
  by (induction ps) (auto simp: add_ring_edge_def)

lemma sssr_rings_same:
  "list_all (\<lambda>r. 2 \<le> length r \<and> list_all (\<lambda>(n, m). n \<in> set (dd_get rings m)) (ring_pairs r)) rs \<Longrightarrow>
   sssr_rings rs rings = Inr rings"
  by (induction rs) (auto simp: add_ring_edges_same)

text \<open>The breadth-first traversal.\<close>

definition entries_of :: "skeleton \<Rightarrow> skeleton \<Rightarrow> bool" where
  "entries_of rings c = list_all (\<lambda>(n, ms). ms = dd_get rings n) c"

lemma bfs_visit_fold:
  "fold (bfs_visit rings) ms (c, q) = (c', q') \<Longrightarrow> distinct (keys c) \<Longrightarrow> entries_of rings c \<Longrightarrow>
   (\<exists>ex. c' = c @ ex \<and> q' = q @ keys ex \<and> set (keys ex) \<subseteq> set ms)
   \<and> distinct (keys c') \<and> entries_of rings c' \<and> set ms \<subseteq> set (keys c')"
proof (induction ms arbitrary: c q)
  case Nil
  then show ?case by (auto simp: keys_def)
next
  case (Cons n ms)
  show ?case
  proof (cases "n \<in> set (keys c)")
    case True
    then have "bfs_visit rings n (c, q) = (c, q)" by (simp add: bfs_visit_def)
    with Cons.prems have f: "fold (bfs_visit rings) ms (c, q) = (c', q')" by simp
    from Cons.IH[OF f Cons.prems(2,3)] True show ?thesis by (auto simp: keys_def)
  next
    case False
    let ?c1 = "c @ [(n, dd_get rings n)]"
    have st: "bfs_visit rings n (c, q) = (?c1, q @ [n])" using False by (simp add: bfs_visit_def)
    with Cons.prems have f: "fold (bfs_visit rings) ms (?c1, q @ [n]) = (c', q')" by simp
    have d: "distinct (keys ?c1)" using Cons.prems(2) False by (simp add: keys_def)
    have e: "entries_of rings ?c1" using Cons.prems(3) by (simp add: entries_of_def)
    from Cons.IH[OF f d e] obtain ex where
      ex: "c' = ?c1 @ ex" "q' = (q @ [n]) @ keys ex" "set (keys ex) \<subseteq> set ms"
      and rest: "distinct (keys c')" "entries_of rings c'" "set ms \<subseteq> set (keys c')"
      by blast
    have "c' = c @ ((n, dd_get rings n) # ex) \<and> q' = q @ keys ((n, dd_get rings n) # ex)
        \<and> set (keys ((n, dd_get rings n) # ex)) \<subseteq> set (n # ms)"
      using ex by (auto simp: keys_def)
    then have 1: "\<exists>ex. c' = c @ ex \<and> q' = q @ keys ex \<and> set (keys ex) \<subseteq> set (n # ms)"
      by (rule exI)
    have "n \<in> set (keys c')" using ex by (simp add: keys_def)
    then have 2: "set (n # ms) \<subseteq> set (keys c')" using rest(3) by simp
    show ?thesis using 1 2 rest(1,2) by (intro conjI)
  qed
qed

lemma bfs_result:
  "distinct (keys c) \<Longrightarrow> entries_of rings c \<Longrightarrow> set q \<subseteq> set (keys c) \<Longrightarrow>
   (\<forall>n \<in> set (keys c) - set q. set (dd_get rings n) \<subseteq> set (keys c)) \<Longrightarrow>
   (\<exists>ex. bfs rings c q = c @ ex) \<and> distinct (keys (bfs rings c q)) \<and> entries_of rings (bfs rings c q)
   \<and> (\<forall>n \<in> set (keys (bfs rings c q)). set (dd_get rings n) \<subseteq> set (keys (bfs rings c q)))"
proof (induction rings c q rule: bfs.induct)
  case (1 rings component)
  then show ?case by simp
next
  case (2 rings component current queue)
  obtain c' q' where f: "fold (bfs_visit rings) (dd_get rings current) (component, queue) = (c', q')"
    by (cases "fold (bfs_visit rings) (dd_get rings current) (component, queue)")
  from bfs_visit_fold[OF f "2.prems"(1,2)] obtain ex where
    ex: "c' = component @ ex" "q' = queue @ keys ex"
    and d: "distinct (keys c')" and e: "entries_of rings c'"
    and sub: "set (dd_get rings current) \<subseteq> set (keys c')"
    by blast
  have q: "set q' \<subseteq> set (keys c')" using ex "2.prems"(3) by (auto simp: keys_def)
  have cl: "\<forall>n \<in> set (keys c') - set q'. set (dd_get rings n) \<subseteq> set (keys c')"
  proof
    fix n assume n: "n \<in> set (keys c') - set q'"
    then have nc: "n \<in> set (keys component)" and nq: "n \<notin> set queue"
      using ex by (auto simp: keys_def)
    show "set (dd_get rings n) \<subseteq> set (keys c')"
    proof (cases "n = current")
      case True
      with sub show ?thesis by simp
    next
      case False
      with nc nq "2.prems"(4) have "set (dd_get rings n) \<subseteq> set (keys component)" by auto
      then show ?thesis using ex by (auto simp: keys_def)
    qed
  qed
  from "2.IH"[OF f[symmetric] d e q cl] obtain ex2 where
    r: "bfs rings c' q' = c' @ ex2" "distinct (keys (bfs rings c' q'))" "entries_of rings (bfs rings c' q')"
      "\<forall>n \<in> set (keys (bfs rings c' q')). set (dd_get rings n) \<subseteq> set (keys (bfs rings c' q'))"
    by blast
  have b: "bfs rings component (current # queue) = bfs rings c' q'" by (simp add: f)
  have "bfs rings component (current # queue) = component @ (ex @ ex2)" using r(1) ex b by simp
  with r b show ?case by (metis (no_types, lifting))
qed

lemma bfs_visit_fold_keys:
  "fold (bfs_visit rings) ms (c, q) = (c', q') \<Longrightarrow> set (keys c') \<subseteq> set (keys c) \<union> set ms"
proof (induction ms arbitrary: c q)
  case Nil
  then show ?case by simp
next
  case (Cons n ms)
  obtain c1 q1 where st: "bfs_visit rings n (c, q) = (c1, q1)" by (cases "bfs_visit rings n (c, q)")
  then have k1: "set (keys c1) \<subseteq> set (keys c) \<union> {n}"
    by (auto simp: bfs_visit_def keys_def split: if_splits)
  from Cons.prems st have "fold (bfs_visit rings) ms (c1, q1) = (c', q')" by simp
  from Cons.IH[OF this] k1 show ?case by auto
qed

lemma bfs_keys_sub:
  "set (keys (bfs rings c q)) \<subseteq> set (keys c) \<union> universe rings"
proof (induction rings c q rule: bfs.induct)
  case (1 rings component)
  then show ?case by simp
next
  case (2 rings component current queue)
  obtain c' q' where f: "fold (bfs_visit rings) (dd_get rings current) (component, queue) = (c', q')"
    by (cases "fold (bfs_visit rings) (dd_get rings current) (component, queue)")
  have "set (keys c') \<subseteq> set (keys component) \<union> universe rings"
    using bfs_visit_fold_keys[OF f] dd_get_universe[of rings current] by auto
  moreover have "set (keys (bfs rings c' q')) \<subseteq> set (keys c') \<union> universe rings"
    by (rule "2.IH"[OF f[symmetric]])
  ultimately show ?case by (auto simp: f)
qed

text \<open>
  A benzene-like molecule: the six atoms of \<open>ring\<close>, in the order of the ring, are the
  atoms of the molecule, neutral carbons; bond \<open>es ! i\<close> joins atom \<open>i\<close> of the ring and
  its successor; every atom has these two bonds and no other, in either order, all of order
  4; the rings of \<^verbatim>\<open>sssr\<close> follow bonds of the molecule. The order of the atoms in
  \<^verbatim>\<open>_bonds\<close> is free. Atoms are numbered from 1, as the container numbers them
  (the test \<^verbatim>\<open>if loop\<close> of the search takes atom 0 for no atom).
\<close>

definition carbon :: "molecule \<Rightarrow> atom \<Rightarrow> bool" where
  "carbon mol n = (atomic_number mol n = 6 \<and> charges mol n = 0)"

definition follows_bonds :: "molecule \<Rightarrow> atom list \<Rightarrow> bool" where
  "follows_bonds mol r =
     (3 \<le> length r \<and> list_all (\<lambda>(n, m). n \<in> set (map fst (dd_get (bonds mol) m))) (ring_pairs r))"

definition ring_neighbours :: "molecule \<Rightarrow> atom \<Rightarrow> atom \<times> nat \<Rightarrow> atom \<times> nat \<Rightarrow> bool" where
  "ring_neighbours mol n p q = (dd_get (bonds mol) n = [p, q] \<or> dd_get (bonds mol) n = [q, p])"

definition benzene :: "molecule \<Rightarrow> atom list \<Rightarrow> nat list \<Rightarrow> bool" where
  "benzene mol ring es =
     (length ring = 6 \<and> length es = 6 \<and> distinct ring \<and> distinct es \<and> 0 \<notin> set ring \<and>
      distinct (keys (bonds mol)) \<and> set (keys (bonds mol)) = set ring \<and>
      list_all (\<lambda>i. carbon mol (ring ! i) \<and> order mol (es ! i) = 4 \<and>
                  ring_neighbours mol (ring ! i)
                    (ring ! ((i + 5) mod 6), es ! ((i + 5) mod 6)) (ring ! ((i + 1) mod 6), es ! i))
        [0..<6] \<and>
      list_all (follows_bonds mol) (sssr mol))"

lemma classify_carbon:
  "carbon mol n \<Longrightarrow> length (dd_get (bonds mol) n) = 2 \<Longrightarrow> classify mol n st = Inr st"
  by (cases st) (simp add: classify_def carbon_def)

lemma classify_all_carbon:
  "list_all (\<lambda>n. carbon mol n \<and> length (dd_get (bonds mol) n) = 2) ns \<Longrightarrow>
   classify_all mol ns st = Inr st"
  by (induction ns) (simp_all add: classify_carbon)

lemma dd_get_entry: "distinct (keys d) \<Longrightarrow> (n, v) \<in> set d \<Longrightarrow> dd_get d n = v"
  by (simp add: dd_get_def keys_def)

lemma prepare_rings_plain:
  assumes d: "distinct (keys (bonds mol))"
    and ne: "bonds mol \<noteq> []"
    and ar: "list_all (aromatic_entry (order mol)) (bonds mol)"
    and c2: "list_all (\<lambda>(n, mb). length mb = 2 \<and> carbon mol n) (bonds mol)"
    and fb: "list_all (follows_bonds mol) (sssr mol)"
  shows "prepare_rings mol = Inr (skeleton_of (bonds mol), [], [])"
proof -
  let ?R = "skeleton_of (bonds mol)"
  have scan: "scan_bonds mol = (?R, [], [])" by (rule scan_bonds_aromatic[OF d ar])
  have R: "?R \<noteq> []" using ne by (simp add: skeleton_of_def)
  have "list_all (\<lambda>r. 2 \<le> length r \<and> list_all (\<lambda>(n, m). n \<in> set (dd_get ?R m)) (ring_pairs r)) (sssr mol)"
    using fb by (auto simp: list_all_iff follows_bonds_def dd_get_skeleton_of)
  then have ss: "sssr_rings (sssr mol) ?R = Inr ?R" by (rule sssr_rings_same)
  have deg: "\<not> list_ex (\<lambda>ms. length ms \<noteq> 2 \<and> length ms \<noteq> 3) (map snd ?R)"
    using c2 by (auto simp: list_ex_iff list_all_iff skeleton_of_def)
  have "carbon mol n \<and> length (dd_get (bonds mol) n) = 2" if "n \<in> set (keys (bonds mol))" for n
  proof -
    from that obtain mb where mb: "(n, mb) \<in> set (bonds mol)" by (auto simp: keys_def)
    with c2 have "length mb = 2 \<and> carbon mol n" by (auto simp: list_all_iff)
    with dd_get_entry[OF d mb] show ?thesis by simp
  qed
  then have "list_all (\<lambda>n. carbon mol n \<and> length (dd_get (bonds mol) n) = 2) (keys ?R)"
    by (simp add: list_all_iff keys_skeleton_of)
  then have cl: "classify_all mol (keys ?R) ([], []) = Inr ([], [])" by (rule classify_all_carbon)
  show ?thesis
    by (simp add: prepare_rings_def scan R ss deg cl)
qed

lemma next_step:
  "\<not> at_yield s \<Longrightarrow> stack s \<noteq> [] \<Longrightarrow> iteration K s = Inr s' \<Longrightarrow> \<not> at_yield s' \<Longrightarrow>
   kekule_next K s = kekule_next K s'"
  by (subst kekule_next.simps) simp

lemma next_yield:
  "\<not> at_yield s \<Longrightarrow> stack s \<noteq> [] \<Longrightarrow> iteration K s = Inr s' \<Longrightarrow> at_yield s' \<Longrightarrow>
   kekule_next K s = Some (Inr (Some (path s', s')))"
  by (subst kekule_next.simps) simp

lemma next_resume:
  "at_yield s \<Longrightarrow> resume s = Inr s' \<Longrightarrow> kekule_next K s = kekule_next K s'"
  by (subst kekule_next.simps) simp

lemma next_end:
  "\<not> at_yield s \<Longrightarrow> stack s = [] \<Longrightarrow>
   kekule_next K s = Some (if nether_yielded s then Inl InvalidAromaticRing else Inr None)"
  by (subst kekule_next.simps) simp

lemma sort_pair:
  "ms = [p, q] \<or> ms = [q, p] \<Longrightarrow>
   fold (sort_neighbour st h p) ms acc = sort_neighbour st h p q acc"
  by (cases acc) (auto simp: sort_neighbour_def)

definition two :: "atom list \<Rightarrow> atom \<Rightarrow> atom \<Rightarrow> bool" where
  "two ms p q = (ms = [p, q] \<or> ms = [q, p])"

lemma walk_ring:
  assumes K: "c_double_bonded K = []" "c_pyroles K = []" "c_start K = a0" "c_size K = 6"
    and n1: "map_of (c_rings K) a1 = Some m1" "two m1 a0 a2"
    and n2: "map_of (c_rings K) a2 = Some m2" "two m2 a1 a3"
    and n3: "map_of (c_rings K) a3 = Some m3" "two m3 a2 a4"
    and n4: "map_of (c_rings K) a4 = Some m4" "two m4 a3 a5"
    and n5: "map_of (c_rings K) a5 = Some m5" "two m5 a4 a0"
    and d: "distinct [a0, a1, a2, a3, a4, a5]" and z: "a0 \<noteq> 0"
  shows "kekule_next K \<lparr>stack = [(a1, a0, 1, mk)] # rest, path = [], hashed_path = {},
           nether_yielded = ny, at_yield = False\<rparr>
       = Some (Inr (Some ([(a1, a0, 1), (a2, a1, 2), (a3, a2, 1), (a4, a3, 2), (a5, a4, 1), (a0, a5, 2)],
           \<lparr>stack = [] # rest,
            path = [(a1, a0, 1), (a2, a1, 2), (a3, a2, 1), (a4, a3, 2), (a5, a4, 1), (a0, a5, 2)],
            hashed_path = {a0, a1, a2, a3, a4, a5}, nether_yielded = ny, at_yield = True\<rparr>)))"
proof -
  note f = sort_pair[OF n1(2)[unfolded two_def]] sort_pair[OF n2(2)[unfolded two_def]]
    sort_pair[OF n3(2)[unfolded two_def]] sort_pair[OF n4(2)[unfolded two_def]]
    sort_pair[OF n5(2)[unfolded two_def]]
  note defs = iteration_def grow_def close_loop_def sort_neighbour_def Let_def
  let ?s0 = "\<lparr>stack = [(a1, a0, 1, mk)] # rest, path = [], hashed_path = {},
           nether_yielded = ny, at_yield = False\<rparr>"
  let ?s1 = "\<lparr>stack = [(a2, a1, 2, None)] # rest, path = [(a1, a0, 1)], hashed_path = {a1},
           nether_yielded = ny, at_yield = False\<rparr>"
  let ?s2 = "\<lparr>stack = [(a3, a2, 1, None)] # rest, path = [(a1, a0, 1), (a2, a1, 2)],
           hashed_path = {a2, a1}, nether_yielded = ny, at_yield = False\<rparr>"
  let ?s3 = "\<lparr>stack = [(a4, a3, 2, None)] # rest, path = [(a1, a0, 1), (a2, a1, 2), (a3, a2, 1)],
           hashed_path = {a3, a2, a1}, nether_yielded = ny, at_yield = False\<rparr>"
  let ?s4 = "\<lparr>stack = [(a5, a4, 1, None)] # rest,
           path = [(a1, a0, 1), (a2, a1, 2), (a3, a2, 1), (a4, a3, 2)],
           hashed_path = {a4, a3, a2, a1}, nether_yielded = ny, at_yield = False\<rparr>"
  let ?s5 = "\<lparr>stack = [(a0, a5, 2, None)] # rest,
           path = [(a1, a0, 1), (a2, a1, 2), (a3, a2, 1), (a4, a3, 2), (a5, a4, 1)],
           hashed_path = {a5, a4, a3, a2, a1}, nether_yielded = ny, at_yield = False\<rparr>"
  let ?s6 = "\<lparr>stack = [] # rest,
           path = [(a1, a0, 1), (a2, a1, 2), (a3, a2, 1), (a4, a3, 2), (a5, a4, 1), (a0, a5, 2)],
           hashed_path = {a0, a5, a4, a3, a2, a1}, nether_yielded = ny, at_yield = True\<rparr>"
  have i0: "iteration K ?s0 = Inr ?s1" using K d n1(1) by (auto simp: defs f)
  have i1: "iteration K ?s1 = Inr ?s2" using K d n2(1) by (auto simp: defs f)
  have i2: "iteration K ?s2 = Inr ?s3" using K d n3(1) by (auto simp: defs f)
  have i3: "iteration K ?s3 = Inr ?s4" using K d n4(1) by (auto simp: defs f)
  have i4: "iteration K ?s4 = Inr ?s5" using K d z n5(1) by (auto simp: defs f)
  have i5: "iteration K ?s5 = Inr ?s6" using K d by (auto simp: defs)
  have "kekule_next K ?s0 = kekule_next K ?s1" by (rule next_step[OF _ _ i0]) simp_all
  also have "\<dots> = kekule_next K ?s2" by (rule next_step[OF _ _ i1]) simp_all
  also have "\<dots> = kekule_next K ?s3" by (rule next_step[OF _ _ i2]) simp_all
  also have "\<dots> = kekule_next K ?s4" by (rule next_step[OF _ _ i3]) simp_all
  also have "\<dots> = kekule_next K ?s5" by (rule next_step[OF _ _ i4]) simp_all
  also have "\<dots> = Some (Inr (Some (path ?s6, ?s6)))" by (rule next_yield[OF _ _ i5]) simp_all
  finally show ?thesis by (simp add: insert_commute)
qed

lemma upt6: "[0..<6] = [0, 1, 2, 3, 4, 5]"
  by (simp add: upt_rec)

lemma length6: "length xs = 6 \<Longrightarrow> \<exists>a b c d e f. xs = [a, b, c, d, e, f]"
  by (auto simp: length_Suc_conv eval_nat_numeral)

lemma ring_neighbours_swap: "ring_neighbours mol n p q = ring_neighbours mol n q p"
  by (auto simp: ring_neighbours_def)

lemma benzene_explicit:
  "benzene mol [a, b, c, d, e, f] [u, v, w, x, y, z] =
     (distinct [a, b, c, d, e, f] \<and> distinct [u, v, w, x, y, z] \<and> 0 \<notin> set [a, b, c, d, e, f] \<and>
      distinct (keys (bonds mol)) \<and> set (keys (bonds mol)) = set [a, b, c, d, e, f] \<and>
      list_all (carbon mol) [a, b, c, d, e, f] \<and> list_all (\<lambda>e. order mol e = 4) [u, v, w, x, y, z] \<and>
      ring_neighbours mol a (f, z) (b, u) \<and> ring_neighbours mol b (a, u) (c, v) \<and>
      ring_neighbours mol c (b, v) (d, w) \<and> ring_neighbours mol d (c, w) (e, x) \<and>
      ring_neighbours mol e (d, x) (f, y) \<and> ring_neighbours mol f (e, y) (a, z) \<and>
      list_all (follows_bonds mol) (sssr mol))"
  unfolding benzene_def upt6 by (simp del: distinct.simps set_simps) blast

lemma benzene_rotate:
  "benzene mol [a, b, c, d, e, f] [u, v, w, x, y, z] \<Longrightarrow>
   benzene mol [b, c, d, e, f, a] [v, w, x, y, z, u]"
  unfolding benzene_explicit by auto

lemma benzene_reflect:
  "benzene mol [a, b, c, d, e, f] [u, v, w, x, y, z] \<Longrightarrow>
   benzene mol [a, f, e, d, c, b] [z, y, x, w, v, u]"
  unfolding benzene_explicit by (auto simp: ring_neighbours_swap)

lemma entries_of_lookup:
  "entries_of rings c \<Longrightarrow> n \<in> set (keys c) \<Longrightarrow> map_of c n = Some (dd_get rings n)"
  by (induction c) (auto simp: entries_of_def keys_def)

lemma two_of_neighbours:
  "ring_neighbours mol n (p, u) (q, v) \<Longrightarrow> two (map fst (dd_get (bonds mol) n)) p q"
  by (auto simp: ring_neighbours_def two_def)

lemma two_swap: "two ms p q = two ms q p"
  by (auto simp: two_def)

lemma two_set: "two ms p q \<Longrightarrow> set ms = {p, q} \<and> length ms = 2"
  by (auto simp: two_def)

lemma sum_degrees_two:
  "\<forall>(n, ms) \<in> set C. length ms = 2 \<Longrightarrow> sum_list (map (\<lambda>(n, ms). length ms) C) = 2 * length C"
  by (induction C) auto

text \<open>The component of a ring of six atoms is the whole ring, entered from its first key.\<close>

lemma ring_component:
  assumes h: "keys R = a0 # ks" "set (keys R) = {a0, a1, a2, a3, a4, a5}"
    and d: "distinct [a0, a1, a2, a3, a4, a5]"
    and t: "two (dd_get R a0) a5 a1" "two (dd_get R a1) a0 a2" "two (dd_get R a2) a1 a3"
      "two (dd_get R a3) a2 a4" "two (dd_get R a4) a3 a5" "two (dd_get R a5) a4 a0"
    and u: "universe R \<subseteq> {a0, a1, a2, a3, a4, a5}"
  shows "\<exists>C. components_loop R (keys R) = [C] \<and> hd C = (a0, dd_get R a0) \<and> C \<noteq> []
     \<and> (\<forall>n \<in> {a0, a1, a2, a3, a4, a5}. map_of C n = Some (dd_get R n))
     \<and> sum_list (map (\<lambda>(n, ms). length ms) C) = 12"
proof -
  let ?c0 = "[(a0, dd_get R a0)]"
  define C where "C = bfs R ?c0 [a0]"
  let ?C = "C"
  let ?A = "{a0, a1, a2, a3, a4, a5}"
  have "(\<exists>ex. ?C = ?c0 @ ex) \<and> distinct (keys ?C) \<and> entries_of R ?C
     \<and> (\<forall>n \<in> set (keys ?C). set (dd_get R n) \<subseteq> set (keys ?C))"
    unfolding C_def by (rule bfs_result) (simp_all add: keys_def entries_of_def)
  then obtain ex where C: "?C = ?c0 @ ex" and dC: "distinct (keys ?C)" and eC: "entries_of R ?C"
    and cl: "\<And>n. n \<in> set (keys ?C) \<Longrightarrow> set (dd_get R n) \<subseteq> set (keys ?C)"
    by blast
  have k0: "a0 \<in> set (keys ?C)" using C by (simp add: keys_def)
  have k1: "a1 \<in> set (keys ?C)" using cl[OF k0] two_set[OF t(1)] by auto
  have k2: "a2 \<in> set (keys ?C)" using cl[OF k1] two_set[OF t(2)] by auto
  have k3: "a3 \<in> set (keys ?C)" using cl[OF k2] two_set[OF t(3)] by auto
  have k4: "a4 \<in> set (keys ?C)" using cl[OF k3] two_set[OF t(4)] by auto
  have k5: "a5 \<in> set (keys ?C)" using cl[OF k4] two_set[OF t(5)] by auto
  have sub: "set (keys ?C) \<subseteq> ?A"
    using bfs_keys_sub[of R ?c0 "[a0]"] u unfolding C_def[symmetric] by (auto simp: keys_def)
  have keysC: "set (keys ?C) = ?A" using sub k0 k1 k2 k3 k4 k5 by auto
  have look: "\<forall>n \<in> ?A. map_of ?C n = Some (dd_get R n)"
    using entries_of_lookup[OF eC] keysC by auto
  have len: "length (keys ?C) = 6"
  proof -
    have "length (keys ?C) = card (set (keys ?C))" using dC by (simp add: distinct_card)
    also have "\<dots> = card ?A" by (simp only: keysC)
    also have "\<dots> = 6" using d by simp
    finally show ?thesis .
  qed
  have two_all: "\<forall>(n, ms) \<in> set ?C. length ms = 2"
  proof -
    have "length ms = 2" if "(n, ms) \<in> set ?C" for n ms
    proof -
      from that have "n \<in> set (keys ?C)" by (force simp: keys_def)
      then have n: "n \<in> ?A" using keysC by simp
      from eC that have "ms = dd_get R n" by (auto simp: entries_of_def list_all_iff)
      with n t show ?thesis by (auto dest: two_set)
    qed
    then show ?thesis by auto
  qed
  have "sum_list (map (\<lambda>(n, ms). length ms) ?C) = 2 * length ?C"
    using two_all by (rule sum_degrees_two)
  then have sum: "sum_list (map (\<lambda>(n, ms). length ms) ?C) = 12" using len by (simp add: keys_def)
  have "filter (\<lambda>a. a \<notin> set (keys ?C)) ks = []"
    using h keysC by (auto simp: filter_empty_conv)
  then have comp: "components_loop R (keys R) = [?C]"
    unfolding h(1) C_def by (simp add: Let_def del: bfs.simps)
  have "hd ?C = (a0, dd_get R a0) \<and> ?C \<noteq> []" using C by simp
  with comp look sum show ?thesis by blast
qed

lemma map_of_dd_get: "n \<in> set (keys d) \<Longrightarrow> map_of d n = Some (dd_get d n)"
  by (cases "map_of d n") (auto simp: dd_get_def keys_def map_of_eq_None_iff)

lemma neighbours_lookup:
  "ring_neighbours mol n (p, u) (q, v) \<Longrightarrow> p \<noteq> q \<Longrightarrow>
   map_of (dd_get (bonds mol) n) p = Some u \<and> map_of (dd_get (bonds mol) n) q = Some v"
  by (auto simp: ring_neighbours_def)

lemma recalc_fold_same:
  "bonds (fold (recalc ch ci) atoms mol) = bonds mol \<and> order (fold (recalc ch ci) atoms mol) = order mol"
  by (induction atoms arbitrary: mol) (simp_all add: recalc_def Let_def)

lemma entry_props:
  "ring_neighbours mol n (p, u) (q, v) \<Longrightarrow> p \<noteq> q \<Longrightarrow> order mol u = 4 \<Longrightarrow> order mol v = 4 \<Longrightarrow>
   length (dd_get (bonds mol) n) = 2 \<and> set (map fst (dd_get (bonds mol) n)) = {p, q}
   \<and> distinct (map fst (dd_get (bonds mol) n))
   \<and> list_all (\<lambda>x. order mol (snd x) = 4) (dd_get (bonds mol) n)"
  by (auto simp: ring_neighbours_def)

lemma benzene_atom:
  assumes b: "benzene mol [a0, a1, a2, a3, a4, a5] [e0, e1, e2, e3, e4, e5]"
    and n: "n \<in> {a0, a1, a2, a3, a4, a5}"
  shows "\<exists>p u q v. ring_neighbours mol n (p, u) (q, v) \<and> p \<noteq> q
     \<and> p \<in> {a0, a1, a2, a3, a4, a5} \<and> q \<in> {a0, a1, a2, a3, a4, a5}
     \<and> order mol u = 4 \<and> order mol v = 4 \<and> carbon mol n"
proof -
  let ?A = "{a0, a1, a2, a3, a4, a5}"
  note x = b[unfolded benzene_explicit]
  from n consider "n = a0" | "n = a1" | "n = a2" | "n = a3" | "n = a4" | "n = a5" by auto
  then show ?thesis
  proof cases
  
    case 1
    have "ring_neighbours mol n (a5, e5) (a1, e0) \<and> a5 \<noteq> a1 \<and> a5 \<in> ?A \<and> a1 \<in> ?A
        \<and> order mol e5 = 4 \<and> order mol e0 = 4 \<and> carbon mol n"
      using x 1 by auto
    then show ?thesis by blast
  next
    case 2
    have "ring_neighbours mol n (a0, e0) (a2, e1) \<and> a0 \<noteq> a2 \<and> a0 \<in> ?A \<and> a2 \<in> ?A
        \<and> order mol e0 = 4 \<and> order mol e1 = 4 \<and> carbon mol n"
      using x 2 by auto
    then show ?thesis by blast
  next
    case 3
    have "ring_neighbours mol n (a1, e1) (a3, e2) \<and> a1 \<noteq> a3 \<and> a1 \<in> ?A \<and> a3 \<in> ?A
        \<and> order mol e1 = 4 \<and> order mol e2 = 4 \<and> carbon mol n"
      using x 3 by auto
    then show ?thesis by blast
  next
    case 4
    have "ring_neighbours mol n (a2, e2) (a4, e3) \<and> a2 \<noteq> a4 \<and> a2 \<in> ?A \<and> a4 \<in> ?A
        \<and> order mol e2 = 4 \<and> order mol e3 = 4 \<and> carbon mol n"
      using x 4 by auto
    then show ?thesis by blast
  next
    case 5
    have "ring_neighbours mol n (a3, e3) (a5, e4) \<and> a3 \<noteq> a5 \<and> a3 \<in> ?A \<and> a5 \<in> ?A
        \<and> order mol e3 = 4 \<and> order mol e4 = 4 \<and> carbon mol n"
      using x 5 by auto
    then show ?thesis by blast
  next
    case 6
    have "ring_neighbours mol n (a4, e4) (a0, e5) \<and> a4 \<noteq> a0 \<and> a4 \<in> ?A \<and> a0 \<in> ?A
        \<and> order mol e4 = 4 \<and> order mol e5 = 4 \<and> carbon mol n"
      using x 6 by auto
    then show ?thesis by blast
  qed
qed

lemma benzene_entries:
  assumes b: "benzene mol [a0, a1, a2, a3, a4, a5] [e0, e1, e2, e3, e4, e5]"
    and m: "(n, mb) \<in> set (bonds mol)"
  shows "n \<in> {a0, a1, a2, a3, a4, a5} \<and> carbon mol n \<and> length mb = 2
    \<and> set (map fst mb) \<subseteq> {a0, a1, a2, a3, a4, a5} \<and> distinct (map fst mb)
    \<and> list_all (\<lambda>x. order mol (snd x) = 4) mb"
proof -
  from b have d: "distinct (keys (bonds mol))" by (simp add: benzene_explicit)
  have mb: "dd_get (bonds mol) n = mb" by (rule dd_get_entry[OF d m])
  from m have "n \<in> set (keys (bonds mol))" by (force simp: keys_def)
  with b have n: "n \<in> {a0, a1, a2, a3, a4, a5}" by (simp add: benzene_explicit)
  from benzene_atom[OF b n] obtain p u q v where
    r: "ring_neighbours mol n (p, u) (q, v)" "p \<noteq> q" "p \<in> {a0, a1, a2, a3, a4, a5}"
      "q \<in> {a0, a1, a2, a3, a4, a5}" "order mol u = 4" "order mol v = 4" "carbon mol n"
    by blast
  from entry_props[OF r(1,2,5,6)] r(3,4,7) n show ?thesis unfolding mb by simp
qed

lemma benzene_prepared:
  assumes b: "benzene mol [a0, a1, a2, a3, a4, a5] [e0, e1, e2, e3, e4, e5]"
  shows "prepare_rings mol = Inr (skeleton_of (bonds mol), [], [])"
proof (rule prepare_rings_plain)
  show "distinct (keys (bonds mol))" using b by (simp add: benzene_explicit)
  have "set (keys (bonds mol)) \<noteq> {}" using b by (simp add: benzene_explicit)
  then show "bonds mol \<noteq> []" by (auto simp: keys_def)
  show "list_all (aromatic_entry (order mol)) (bonds mol)"
    unfolding list_all_iff
  proof
    fix x assume x: "x \<in> set (bonds mol)"
    obtain n mb where nm: "x = (n, mb)" by (cases x)
    from benzene_entries[OF b x[unfolded nm]] have "length mb = 2" "distinct (map fst mb)"
      "list_all (\<lambda>x. order mol (snd x) = 4) mb" by simp_all
    then show "aromatic_entry (order mol) x" unfolding nm aromatic_entry_def by auto
  qed
  show "list_all (\<lambda>(n, mb). length mb = 2 \<and> carbon mol n) (bonds mol)"
    unfolding list_all_iff
  proof
    fix x assume x: "x \<in> set (bonds mol)"
    obtain n mb where nm: "x = (n, mb)" by (cases x)
    from benzene_entries[OF b x[unfolded nm]] show "case x of (n, mb) \<Rightarrow> length mb = 2 \<and> carbon mol n"
      unfolding nm by simp
  qed
  show "list_all (follows_bonds mol) (sssr mol)" using b by (simp add: benzene_explicit)
qed

lemma universe_skeleton_of:
  "(\<And>n mb. (n, mb) \<in> set bs \<Longrightarrow> set (map fst mb) \<subseteq> A) \<Longrightarrow> universe (skeleton_of bs) \<subseteq> A"
  by (fastforce simp: universe_def skeleton_of_def)

lemma find_hd: "C \<noteq> [] \<Longrightarrow> P (hd C) \<Longrightarrow> find P C = Some (hd C)"
  by (cases C) auto

text \<open>The assignment found by walking the ring \<open>r\<close> from its first atom.\<close>

definition phase1 :: "atom list \<Rightarrow> assignment" where
  "phase1 r = [(r ! 1, r ! 0, 1), (r ! 2, r ! 1, 2), (r ! 3, r ! 2, 1), (r ! 4, r ! 3, 2),
               (r ! 5, r ! 4, 1), (r ! 0, r ! 5, 2)]"

lemma benzene_search:
  assumes b: "benzene mol [a0, a1, a2, a3, a4, a5] [e0, e1, e2, e3, e4, e5]"
    and h: "hd (keys (bonds mol)) = a0"
    and o: "dd_get (bonds mol) a0 = [(a5, e5), (a1, e0)]"
  shows "kekule_full_first mol = Some (Inr (Some (phase1 [a0, a1, a2, a3, a4, a5])))"
    and "kekule_full mol = Some (Inr [phase1 [a0, a1, a2, a3, a4, a5], phase1 [a0, a5, a4, a3, a2, a1]])"
proof -
  let ?A = "{a0, a1, a2, a3, a4, a5}"
  define R where "R = skeleton_of (bonds mol)"
  note x = b[unfolded benzene_explicit]
  have prep: "prepare_rings mol = Inr (R, [], [])" unfolding R_def by (rule benzene_prepared[OF b])
  have kR: "keys R = keys (bonds mol)" by (simp add: R_def keys_skeleton_of)
  have ne: "keys (bonds mol) \<noteq> []" using x by auto
  have k1: "keys R = a0 # tl (keys (bonds mol))" using ne h kR by (cases "keys (bonds mol)") auto
  have k2: "set (keys R) = ?A" using x kR by simp
  have d: "distinct [a0, a1, a2, a3, a4, a5]" using x by blast
  have rn: "ring_neighbours mol a0 (a5, e5) (a1, e0)" "ring_neighbours mol a1 (a0, e0) (a2, e1)"
      "ring_neighbours mol a2 (a1, e1) (a3, e2)" "ring_neighbours mol a3 (a2, e2) (a4, e3)"
      "ring_neighbours mol a4 (a3, e3) (a5, e4)" "ring_neighbours mol a5 (a4, e4) (a0, e5)"
    using x by blast+
  have t: "two (dd_get R a0) a5 a1" "two (dd_get R a1) a0 a2" "two (dd_get R a2) a1 a3"
      "two (dd_get R a3) a2 a4" "two (dd_get R a4) a3 a5" "two (dd_get R a5) a4 a0"
    using rn[THEN two_of_neighbours] by (simp_all add: R_def dd_get_skeleton_of)
  have u: "universe R \<subseteq> ?A"
    unfolding R_def using benzene_entries[OF b] by (intro universe_skeleton_of) blast
  from ring_component[OF k1 k2 d t u] obtain C where
    comp: "components_loop R (keys R) = [C]" and hdC: "hd C = (a0, dd_get R a0)" and neC: "C \<noteq> []"
    and look: "\<And>n. n \<in> ?A \<Longrightarrow> map_of C n = Some (dd_get R n)"
    and sum: "sum_list (map (\<lambda>(n, ms). length ms) C) = 12"
    by blast
  have gen: "generators R [] [] = [(C, [], [])]" by (simp add: generators_def comp)
  have R0: "dd_get R a0 = [a5, a1]" by (simp add: R_def dd_get_skeleton_of o)
  have C0: "dd_get C a0 = [a5, a1]" using look[of a0] R0 by (simp add: dd_get_def)
  have f: "find (\<lambda>(n, ms). length ms = 2) C = Some (a0, dd_get R a0)"
    using find_hd[OF neC, of "\<lambda>(n, ms). length ms = 2"] hdC R0 by simp
  define K where "K = \<lparr>c_rings = C, c_double_bonded = [], c_pyroles = [], c_start = a0, c_size = 6\<rparr>"
  let ?s0 = "\<lparr>stack = [(a1, a0, 1, Some 0)] # [[(a5, a0, 1, Some 0)]], path = [], hashed_path = {},
      nether_yielded = True, at_yield = False\<rparr>"
  have init: "kekule_component_init C [] [] = Inr (K, ?s0)"
    by (simp add: kekule_component_init_def f sum C0 first_branches_def K_def)
  have Kf: "c_double_bonded K = []" "c_pyroles K = []" "c_start K = a0" "c_size K = 6"
    by (simp_all add: K_def)
  have l: "map_of (c_rings K) a1 = Some (dd_get R a1)" "map_of (c_rings K) a2 = Some (dd_get R a2)"
    "map_of (c_rings K) a3 = Some (dd_get R a3)" "map_of (c_rings K) a4 = Some (dd_get R a4)"
    "map_of (c_rings K) a5 = Some (dd_get R a5)"
    using look by (simp_all add: K_def)
  have z: "a0 \<noteq> 0" using x by simp
  let ?P1 = "phase1 [a0, a1, a2, a3, a4, a5]"
  let ?P2 = "phase1 [a0, a5, a4, a3, a2, a1]"
  let ?s1 = "\<lparr>stack = [] # [[(a5, a0, 1, Some 0)]], path = ?P1,
            hashed_path = {a0, a1, a2, a3, a4, a5}, nether_yielded = True, at_yield = True\<rparr>"
  have w1: "kekule_next K ?s0 = Some (Inr (Some (?P1, ?s1)))"
    using walk_ring[OF Kf l(1) t(2) l(2) t(3) l(3) t(4) l(4) t(5) l(5) t(6) d z,
        of "Some 0" "[[(a5, a0, 1, Some 0)]]" True]
    by (simp add: phase1_def)
  show "kekule_full_first mol = Some (Inr (Some ?P1))"
    using w1 init by (simp add: kekule_full_first_def prep gen component_first_def)
  let ?r1 = "\<lparr>stack = [(a5, a0, 1, Some 0)] # [], path = [], hashed_path = {},
      nether_yielded = False, at_yield = False\<rparr>"
  have res1: "resume ?s1 = Inr ?r1" by (simp add: resume_def backtrack_def)
  have d': "distinct [a0, a5, a4, a3, a2, a1]" using d by auto
  let ?s2 = "\<lparr>stack = [] # [], path = ?P2,
            hashed_path = {a0, a5, a4, a3, a2, a1}, nether_yielded = False, at_yield = True\<rparr>"
  have w2: "kekule_next K ?r1 = Some (Inr (Some (?P2, ?s2)))"
    using walk_ring[OF Kf l(5) t(6)[unfolded two_swap[of _ a4 a0]] l(4) t(5)[unfolded two_swap[of _ a3 a5]]
        l(3) t(4)[unfolded two_swap[of _ a2 a4]] l(2) t(3)[unfolded two_swap[of _ a1 a3]]
        l(1) t(2)[unfolded two_swap[of _ a0 a2]] d' z, of "Some 0" "[]" False]
    by (simp add: phase1_def)
  have n2: "kekule_next K ?s1 = Some (Inr (Some (?P2, ?s2)))"
    using next_resume[of ?s1 ?r1 K] res1 w2 by simp
  let ?r2 = "\<lparr>stack = [], path = ?P2, hashed_path = {a0, a5, a4, a3, a2, a1},
      nether_yielded = False, at_yield = False\<rparr>"
  have res2: "resume ?s2 = Inr ?r2" by (simp add: resume_def backtrack_def)
  have n3: "kekule_next K ?s2 = Some (Inr None)"
    using next_resume[of ?s2 ?r2 K] res2 next_end[of ?r2 K] by simp
  have dr3: "kekule_drain K ?s2 [?P1, ?P2] = Some (Inr [?P1, ?P2])"
    using n3 by (subst kekule_drain.simps) simp
  have dr2: "kekule_drain K ?s1 [?P1] = Some (Inr [?P1, ?P2])"
    using n2 dr3 by (subst kekule_drain.simps) simp
  have dr1: "kekule_drain K ?s0 [] = Some (Inr [?P1, ?P2])"
    using w1 dr2 by (subst kekule_drain.simps) simp
  show "kekule_full mol = Some (Inr [?P1, ?P2])"
    using dr1 init by (simp add: kekule_full_def prep gen component_all_def)
qed

lemma patch_bonds_step:
  "map_of (bonds mol) n = Some mb \<Longrightarrow> map_of mb m = Some addr \<Longrightarrow>
   patch_bonds ((n, m, b) # patch) (mol, atoms)
     = patch_bonds patch (mol\<lparr>order := (order mol)(addr := b)\<rparr>, set_add m (set_add n atoms))"
  by simp

lemma benzene_patch:
  assumes b: "benzene mol [a0, a1, a2, a3, a4, a5] [e0, e1, e2, e3, e4, e5]"
  shows "\<exists>m. kekule_patch ch ci (phase1 [a0, a1, a2, a3, a4, a5]) mol = (None, m)
     \<and> bonds m = bonds mol \<and> map (order m) [e0, e1, e2, e3, e4, e5] = [1, 2, 1, 2, 1, 2]"
proof -
  note x = b[unfolded benzene_explicit]
  have rn: "ring_neighbours mol a0 (a5, e5) (a1, e0)" "ring_neighbours mol a1 (a0, e0) (a2, e1)"
      "ring_neighbours mol a2 (a1, e1) (a3, e2)" "ring_neighbours mol a3 (a2, e2) (a4, e3)"
      "ring_neighbours mol a4 (a3, e3) (a5, e4)" "ring_neighbours mol a5 (a4, e4) (a0, e5)"
    using x by blast+
  have ne: "a5 \<noteq> a1" "a0 \<noteq> a2" "a1 \<noteq> a3" "a2 \<noteq> a4" "a3 \<noteq> a5" "a4 \<noteq> a0"
    and de: "distinct [e0, e1, e2, e3, e4, e5]"
    using x by auto
  have L: "map_of (bonds mol) n = Some (dd_get (bonds mol) n)" if "n \<in> {a0, a1, a2, a3, a4, a5}" for n
    using that x by (intro map_of_dd_get) simp
  have N: "map_of (dd_get (bonds mol) a1) a0 = Some e0" "map_of (dd_get (bonds mol) a2) a1 = Some e1"
    "map_of (dd_get (bonds mol) a3) a2 = Some e2" "map_of (dd_get (bonds mol) a4) a3 = Some e3"
    "map_of (dd_get (bonds mol) a5) a4 = Some e4" "map_of (dd_get (bonds mol) a0) a5 = Some e5"
    using neighbours_lookup[OF rn(2) ne(2)] neighbours_lookup[OF rn(3) ne(3)]
      neighbours_lookup[OF rn(4) ne(4)] neighbours_lookup[OF rn(5) ne(5)]
      neighbours_lookup[OF rn(6) ne(6)] neighbours_lookup[OF rn(1) ne(1)] by simp_all
  obtain m atoms where pb: "patch_bonds (phase1 [a0, a1, a2, a3, a4, a5]) (mol, []) = (None, m, atoms)"
    and bm: "bonds m = bonds mol"
    and om: "order m = (order mol)(e0 := 1, e1 := 2, e2 := 1, e3 := 2, e4 := 1, e5 := 2)"
    by (simp add: phase1_def L N)
  have "kekule_patch ch ci (phase1 [a0, a1, a2, a3, a4, a5]) mol = (None, fold (recalc ch ci) atoms m)"
    by (simp add: kekule_patch_def pb)
  moreover have "map (order m) [e0, e1, e2, e3, e4, e5] = [1, 2, 1, 2, 1, 2]"
    using de by (simp add: om)
  ultimately show ?thesis using recalc_fold_same[of ch ci atoms m] bm by simp
qed

text \<open>
  \<open>kekulized\<close>: \<^verbatim>\<open>kekule\<close> returns true with the first of the two copies that
  \<^verbatim>\<open>enumerate_kekule\<close> yields, and the copies carry the two alternations of the orders
  of the bonds \<open>es\<close>.
\<close>

definition phases :: "molecule \<Rightarrow> molecule \<Rightarrow> nat list \<Rightarrow> bool" where
  "phases m1 m2 es =
     (map (order m1) es = [1, 2, 1, 2, 1, 2] \<and> map (order m2) es = [2, 1, 2, 1, 2, 1]
      \<or> map (order m1) es = [2, 1, 2, 1, 2, 1] \<and> map (order m2) es = [1, 2, 1, 2, 1, 2])"

definition kekulized ::
  "(molecule \<Rightarrow> atom \<Rightarrow> nat) \<Rightarrow> (molecule \<Rightarrow> atom \<Rightarrow> nat option) \<Rightarrow> molecule \<Rightarrow> nat list \<Rightarrow> bool" where
  "kekulized ch ci mol es =
     (\<exists>m1 m2. kekule ch ci mol = Some (Inr True, m1)
        \<and> enumerate_kekule ch ci mol = Some (Inr [m1, m2])
        \<and> bonds m1 = bonds mol \<and> bonds m2 = bonds mol \<and> phases m1 m2 es)"

lemma phases_rotate: "phases m1 m2 [v, w, x, y, z, u] \<Longrightarrow> phases m1 m2 [u, v, w, x, y, z]"
  by (auto simp: phases_def)

lemma phases_reflect: "phases m1 m2 [z, y, x, w, v, u] \<Longrightarrow> phases m1 m2 [u, v, w, x, y, z]"
  by (auto simp: phases_def)

lemma kekulized_rotate:
  "kekulized ch ci mol [v, w, x, y, z, u] \<Longrightarrow> kekulized ch ci mol [u, v, w, x, y, z]"
  unfolding kekulized_def by (blast intro: phases_rotate)

lemma kekulized_reflect:
  "kekulized ch ci mol [z, y, x, w, v, u] \<Longrightarrow> kekulized ch ci mol [u, v, w, x, y, z]"
  unfolding kekulized_def by (blast intro: phases_reflect)

lemma benzene_normal:
  assumes b: "benzene mol [a0, a1, a2, a3, a4, a5] [e0, e1, e2, e3, e4, e5]"
    and h: "hd (keys (bonds mol)) = a0"
    and o: "dd_get (bonds mol) a0 = [(a5, e5), (a1, e0)]"
  shows "kekulized ch ci mol [e0, e1, e2, e3, e4, e5]"
proof -
  from benzene_patch[OF b, of ch ci] obtain m1 where
    m1: "kekule_patch ch ci (phase1 [a0, a1, a2, a3, a4, a5]) mol = (None, m1)"
      "bonds m1 = bonds mol" "map (order m1) [e0, e1, e2, e3, e4, e5] = [1, 2, 1, 2, 1, 2]"
    by (elim exE conjE)
  from benzene_patch[OF benzene_reflect[OF b], of ch ci] obtain m2 where
    m2: "kekule_patch ch ci (phase1 [a0, a5, a4, a3, a2, a1]) mol = (None, m2)"
      "bonds m2 = bonds mol" "map (order m2) [e5, e4, e3, e2, e1, e0] = [1, 2, 1, 2, 1, 2]"
    by (elim exE conjE)
  have ne: "phase1 [a0, a1, a2, a3, a4, a5] \<noteq> []" by (simp add: phase1_def)
  note s1 = benzene_search(1)[OF b h o] and s2 = benzene_search(2)[OF b h o]
  have k: "kekule ch ci mol = Some (Inr True, m1)"
    unfolding kekule_def s1 using ne m1(1) by simp
  have e: "enumerate_kekule ch ci mol = Some (Inr [m1, m2])"
    unfolding enumerate_kekule_def s2 using m1(1) m2(1) by simp
  have p: "phases m1 m2 [e0, e1, e2, e3, e4, e5]" using m1(3) m2(3) by (simp add: phases_def)
  show ?thesis unfolding kekulized_def
    by (rule exI[of _ m1], rule exI[of _ m2]) (intro conjI k e m1(2) m2(2) p)
qed

lemma benzene_first_key:
  assumes b: "benzene mol [a0, a1, a2, a3, a4, a5] [e0, e1, e2, e3, e4, e5]"
    and h: "hd (keys (bonds mol)) = a0"
  shows "kekulized ch ci mol [e0, e1, e2, e3, e4, e5]"
proof -
  from b have "ring_neighbours mol a0 (a5, e5) (a1, e0)" unfolding benzene_explicit by blast
  then consider "dd_get (bonds mol) a0 = [(a5, e5), (a1, e0)]" | "dd_get (bonds mol) a0 = [(a1, e0), (a5, e5)]"
    by (auto simp: ring_neighbours_def)
  then show ?thesis
  proof cases
    case 1
    then show ?thesis by (rule benzene_normal[OF b h])
  next
    case 2
    have "kekulized ch ci mol [e5, e4, e3, e2, e1, e0]"
      by (rule benzene_normal[OF benzene_reflect[OF b] h 2])
    then show ?thesis by (rule kekulized_reflect)
  qed
qed

lemma benzene_kekulized:
  assumes b: "benzene mol ring es"
  shows "kekulized ch ci mol es"
proof -
  from b have "length ring = 6" "length es = 6" by (simp_all add: benzene_def)
  then obtain a0 a1 a2 a3 a4 a5 e0 e1 e2 e3 e4 e5 where
    r: "ring = [a0, a1, a2, a3, a4, a5]" and e: "es = [e0, e1, e2, e3, e4, e5]"
    using length6[of ring] length6[of es] by blast
  note b0 = b[unfolded r e]
  note b1 = benzene_rotate[OF b0]
  note b2 = benzene_rotate[OF b1]
  note b3 = benzene_rotate[OF b2]
  note b4 = benzene_rotate[OF b3]
  note b5 = benzene_rotate[OF b4]
  have "keys (bonds mol) \<noteq> []" using b0 unfolding benzene_explicit by auto
  then have "hd (keys (bonds mol)) \<in> set (keys (bonds mol))" by simp
  then have "hd (keys (bonds mol)) \<in> {a0, a1, a2, a3, a4, a5}"
    using b0 unfolding benzene_explicit by simp
  then consider "hd (keys (bonds mol)) = a0" | "hd (keys (bonds mol)) = a1" | "hd (keys (bonds mol)) = a2"
    | "hd (keys (bonds mol)) = a3" | "hd (keys (bonds mol)) = a4" | "hd (keys (bonds mol)) = a5"
    by auto
  then have "kekulized ch ci mol [e0, e1, e2, e3, e4, e5]"
  proof cases
    case 1
    show ?thesis by (rule benzene_first_key[OF b0 1])
  next
    case 2
    show ?thesis by (rule kekulized_rotate[OF benzene_first_key[OF b1 2]])
  next
    case 3
    show ?thesis by (rule kekulized_rotate[OF kekulized_rotate[OF benzene_first_key[OF b2 3]]])
  next
    case 4
    show ?thesis by (rule kekulized_rotate[OF kekulized_rotate[OF kekulized_rotate[OF benzene_first_key[OF b3 4]]]])
  next
    case 5
    show ?thesis by (rule kekulized_rotate[OF kekulized_rotate[OF kekulized_rotate[OF kekulized_rotate[OF benzene_first_key[OF b4 5]]]]])
  next
    case 6
    show ?thesis by (rule kekulized_rotate[OF kekulized_rotate[OF kekulized_rotate[OF kekulized_rotate[OF kekulized_rotate[OF benzene_first_key[OF b5 6]]]]]])
  qed
  then show ?thesis by (simp add: e)
qed

text \<open>The orders of the six ring bonds, each read as \<^verbatim>\<open>bonds[n][m].order\<close>.\<close>

definition ring_orders :: "molecule \<Rightarrow> atom list \<Rightarrow> nat option list" where
  "ring_orders mol ring = map (\<lambda>i. bond_order mol (ring ! i) (ring ! ((i + 1) mod 6))) [0..<6]"

lemma ring_orders_es:
  assumes b: "benzene mol ring es" and m: "bonds m = bonds mol"
  shows "ring_orders m ring = map (\<lambda>e. Some (order m e)) es"
proof -
  from b have "length ring = 6" "length es = 6" by (simp_all add: benzene_def)
  then obtain a0 a1 a2 a3 a4 a5 e0 e1 e2 e3 e4 e5 where
    r: "ring = [a0, a1, a2, a3, a4, a5]" and e: "es = [e0, e1, e2, e3, e4, e5]"
    using length6[of ring] length6[of es] by blast
  note x = b[unfolded r e benzene_explicit]
  have rn: "ring_neighbours mol a0 (a5, e5) (a1, e0)" "ring_neighbours mol a1 (a0, e0) (a2, e1)"
      "ring_neighbours mol a2 (a1, e1) (a3, e2)" "ring_neighbours mol a3 (a2, e2) (a4, e3)"
      "ring_neighbours mol a4 (a3, e3) (a5, e4)" "ring_neighbours mol a5 (a4, e4) (a0, e5)"
    using x by blast+
  have ne: "a5 \<noteq> a1" "a0 \<noteq> a2" "a1 \<noteq> a3" "a2 \<noteq> a4" "a3 \<noteq> a5" "a4 \<noteq> a0"
    using x by auto
  have L: "map_of (bonds mol) n = Some (dd_get (bonds mol) n)" if "n \<in> {a0, a1, a2, a3, a4, a5}" for n
    using that x by (intro map_of_dd_get) simp
  have N: "map_of (dd_get (bonds mol) a0) a1 = Some e0" "map_of (dd_get (bonds mol) a1) a2 = Some e1"
    "map_of (dd_get (bonds mol) a2) a3 = Some e2" "map_of (dd_get (bonds mol) a3) a4 = Some e3"
    "map_of (dd_get (bonds mol) a4) a5 = Some e4" "map_of (dd_get (bonds mol) a5) a0 = Some e5"
    using neighbours_lookup[OF rn(1) ne(1)] neighbours_lookup[OF rn(2) ne(2)]
      neighbours_lookup[OF rn(3) ne(3)] neighbours_lookup[OF rn(4) ne(4)]
      neighbours_lookup[OF rn(5) ne(5)] neighbours_lookup[OF rn(6) ne(6)] by simp_all
  show ?thesis
    unfolding ring_orders_def upt6 r e by (simp add: bond_order_def m L N)
qed

text \<open>Benzene, atoms 1 to 6.\<close>

definition benzene_mol :: molecule where
  "benzene_mol = six_ring (\<lambda>_. 6) (\<lambda>_. 0) (\<lambda>_. 4)"

lemma benzene_mol_benzene: "benzene benzene_mol [1, 2, 3, 4, 5, 6] [1, 2, 3, 4, 5, 6]"
  by code_simp

text \<open>
  C1: on every benzene-like molecule \<^verbatim>\<open>kekule\<close> returns true, and afterwards the orders
  of the six ring bonds, read around the ring, are 1-2-1-2-1-2 or 2-1-2-1-2-1.
\<close>

theorem kekule_benzene:
  assumes "benzene mol ring es"
  shows "\<exists>mol'. kekule ch ci mol = Some (Inr True, mol')
     \<and> (ring_orders mol' ring = map Some [1, 2, 1, 2, 1, 2]
        \<or> ring_orders mol' ring = map Some [2, 1, 2, 1, 2, 1])"
proof -
  from benzene_kekulized[OF assms, of ch ci] obtain m1 m2 where
    k: "kekule ch ci mol = Some (Inr True, m1)" and b1: "bonds m1 = bonds mol"
    and p: "phases m1 m2 es"
    unfolding kekulized_def by (elim exE conjE)
  have "ring_orders m1 ring = map (\<lambda>e. Some (order m1 e)) es"
    by (rule ring_orders_es[OF assms b1])
  also have "\<dots> = map Some (map (order m1) es)" by simp
  finally have "ring_orders m1 ring = map Some [1, 2, 1, 2, 1, 2]
        \<or> ring_orders m1 ring = map Some [2, 1, 2, 1, 2, 1]"
    using p unfolding phases_def by auto
  with k show ?thesis by blast
qed

theorem kekule_benzene_witness:
  "benzene benzene_mol [1, 2, 3, 4, 5, 6] [1, 2, 3, 4, 5, 6]
   \<and> (\<exists>mol'. kekule (\<lambda>_ _. 2) (\<lambda>_ _. Some 1) benzene_mol = Some (Inr True, mol')
       \<and> (ring_orders mol' [1, 2, 3, 4, 5, 6] = map Some [1, 2, 1, 2, 1, 2]
          \<or> ring_orders mol' [1, 2, 3, 4, 5, 6] = map Some [2, 1, 2, 1, 2, 1]))"
  using kekule_benzene [OF benzene_mol_benzene] benzene_mol_benzene by blast

text \<open>
  C6: on every benzene-like molecule \<^verbatim>\<open>enumerate_kekule\<close> yields exactly two copies;
  they differ, and they carry the two alternations of the ring.
\<close>

theorem enumerate_kekule_benzene:
  assumes "benzene mol ring es"
  shows "\<exists>m1 m2. enumerate_kekule ch ci mol = Some (Inr [m1, m2]) \<and> m1 \<noteq> m2
     \<and> (ring_orders m1 ring = map Some [1, 2, 1, 2, 1, 2]
          \<and> ring_orders m2 ring = map Some [2, 1, 2, 1, 2, 1]
        \<or> ring_orders m1 ring = map Some [2, 1, 2, 1, 2, 1]
          \<and> ring_orders m2 ring = map Some [1, 2, 1, 2, 1, 2])"
proof -
  from benzene_kekulized[OF assms, of ch ci] obtain m1 m2 where
    e: "enumerate_kekule ch ci mol = Some (Inr [m1, m2])"
    and b1: "bonds m1 = bonds mol" and b2: "bonds m2 = bonds mol" and p: "phases m1 m2 es"
    unfolding kekulized_def by (elim exE conjE)
  have r1: "ring_orders m1 ring = map Some (map (order m1) es)"
    using ring_orders_es[OF assms b1] by simp
  have r2: "ring_orders m2 ring = map Some (map (order m2) es)"
    using ring_orders_es[OF assms b2] by simp
  have ph: "ring_orders m1 ring = map Some [1, 2, 1, 2, 1, 2]
          \<and> ring_orders m2 ring = map Some [2, 1, 2, 1, 2, 1]
        \<or> ring_orders m1 ring = map Some [2, 1, 2, 1, 2, 1]
          \<and> ring_orders m2 ring = map Some [1, 2, 1, 2, 1, 2]"
    using p unfolding phases_def r1 r2 by auto
  then have "ring_orders m1 ring \<noteq> ring_orders m2 ring" by auto
  then have "m1 \<noteq> m2" by auto
  with e ph show ?thesis by blast
qed

theorem enumerate_kekule_benzene_witness:
  "benzene benzene_mol [1, 2, 3, 4, 5, 6] [1, 2, 3, 4, 5, 6]
   \<and> (\<exists>m1 m2. enumerate_kekule (\<lambda>_ _. 2) (\<lambda>_ _. Some 1) benzene_mol = Some (Inr [m1, m2])
       \<and> m1 \<noteq> m2)"
  using enumerate_kekule_benzene [OF benzene_mol_benzene] benzene_mol_benzene by blast

section \<open>The order of the alternatives at a branch of the search\<close>
















text \<open>
  Pyrazine: the six-ring with the nitrogens 3 and 6, which carry no hydrogen. The search
  starts at atom 1 and first walks to the nitrogen 6, where the bond to atom 5 can be
  single or double.
\<close>

definition pyrazine :: molecule where
  "pyrazine = (six_ring (\<lambda>n. if n = 3 \<or> n = 6 then 7 else 6) (\<lambda>_. 0) (\<lambda>_. 4))
     \<lparr>hydrogens := (\<lambda>n. if n = 3 \<or> n = 6 then Some 0 else Some 1)\<rparr>"

text \<open>
  The component of pyrazine, the search as \<^verbatim>\<open>__kekule_component\<close> starts it, the
  search after the first pass of the loop, and the search suspended at its first
  \<^verbatim>\<open>yield\<close> when only the top branch is explored.
\<close>

definition pyrazine_component :: component where
  "pyrazine_component =
     \<lparr>c_rings = [(1, [2, 6]), (2, [1, 3]), (3, [2, 4]), (4, [3, 5]), (5, [4, 6]), (6, [5, 1])],
      c_double_bonded = [], c_pyroles = [3, 6], c_start = 1, c_size = 6\<rparr>"

definition pyrazine_search :: search where
  "pyrazine_search =
     \<lparr>stack = [[(6, 1, 1, Some 0)], [(2, 1, 1, Some 0)]], path = [], hashed_path = {},
      nether_yielded = True, at_yield = False\<rparr>"



lemma pyrazine_prepared:
  "prepare_rings pyrazine = Inr (c_rings pyrazine_component, [3, 6], [])"
  by code_simp

lemma pyrazine_init:
  "kekule_component_init (c_rings pyrazine_component) [] [3, 6]
     = Inr (pyrazine_component, pyrazine_search)"
  by code_simp






end
